theory Spec2Isabelle
  imports Main "HOL-Library.Multiset" "HOL-Library.Word"
begin

unbundle bit_operations_syntax

section \<open>The argh command-line classifier (argh2.h)\<close>

text \<open>
  The header defines one class, \<open>parser\<close>, holding three output containers
  (\<open>pos_args_\<close>, \<open>flags_\<close>, \<open>params_\<close>), the registry \<open>registeredParams_\<close> and a
  copy of the argument vector. Strings are \<open>std::basic_string\<close>, modelled as
  \<^typ>\<open>string\<close>; \<open>std::map\<close> as a partial map, \<open>std::multiset\<close> as a multiset,
  \<open>std::vector\<close> as a list and \<open>std::set\<close> as a set. The mode is a C++ \<open>int\<close>
  used as a bit mask, modelled as a 32-bit word.

  The two \<open>assert\<close>s of the header are modelled as they behave in a build without
  \<open>NDEBUG\<close>: a failed assertion aborts the program, which is the \<open>Inl\<close> branch of
  the result.
\<close>

subsection \<open>Mode bits\<close>

type_synonym mode = "32 word"

definition PREFER_FLAG_FOR_UNREG_OPTION :: mode where
  "PREFER_FLAG_FOR_UNREG_OPTION = push_bit 0 1"

definition PREFER_PARAM_FOR_UNREG_OPTION :: mode where
  "PREFER_PARAM_FOR_UNREG_OPTION = push_bit 1 1"

definition NO_SPLIT_ON_EQUALSIGN :: mode where
  "NO_SPLIT_ON_EQUALSIGN = push_bit 2 1"

definition SINGLE_DASH_IS_MULTIFLAG :: mode where
  "SINGLE_DASH_IS_MULTIFLAG = push_bit 3 1"

subsection \<open>The parser object\<close>

datatype error = Assert_arg_not_empty | Assert_mode_exclusive

record parser =
  args :: "string list"
  params :: "string \<rightharpoonup> string"
  pos_args :: "string list"
  flags :: "string multiset"
  registeredParams :: "string set"

text \<open>The member \<open>empty_\<close> is default-constructed and never assigned.\<close>

definition empty_string :: string where
  "empty_string = []"

text \<open>\<open>parser() = default\<close>: every container starts empty.\<close>

definition new_parser :: parser where
  "new_parser = \<lparr>args = [], params = Map.empty, pos_args = [], flags = {#},
     registeredParams = {}\<rparr>"

subsection \<open>String helpers of the standard library\<close>

text \<open>
  \<open>find_first_not_of(c)\<close> and \<open>find(c)\<close> return an index or \<open>npos\<close>; \<open>npos\<close> is
  \<open>None\<close>.
\<close>

fun find_first_not_of :: "string \<Rightarrow> char \<Rightarrow> nat option" where
  "find_first_not_of [] c = None"
| "find_first_not_of (x # xs) c =
     (if x \<noteq> c then Some 0 else map_option Suc (find_first_not_of xs c))"

fun find_char :: "string \<Rightarrow> char \<Rightarrow> nat option" where
  "find_char [] c = None"
| "find_char (x # xs) c =
     (if x = c then Some 0 else map_option Suc (find_char xs c))"

text \<open>
  \<open>std::map::insert\<close> does nothing when the key is already present.
\<close>

definition map_insert :: "string \<Rightarrow> string \<Rightarrow> (string \<rightharpoonup> string) \<Rightarrow> (string \<rightharpoonup> string)" where
  "map_insert k v m = (case m k of None \<Rightarrow> m(k \<mapsto> v) | Some _ \<Rightarrow> m)"

subsection \<open>Stream extraction of a double\<close>

text \<open>
  \<open>is_number\<close> builds an input stream over the token, extracts a \<open>double\<close> and
  looks at the stream state. What the extraction accepts is decided by the C++
  standard library (and by the range of \<open>double\<close>), not by this header, so the
  extraction is a parameter of the model: a function from the token to the
  stream state after \<open>istr >> number\<close>.
\<close>

record iostate =
  failbit :: bool
  badbit :: bool

type_synonym double_reader = "string \<Rightarrow> iostate"

definition ios_fail :: "iostate \<Rightarrow> bool" where
  "ios_fail st = (failbit st \<or> badbit st)"

definition ios_bad :: "iostate \<Rightarrow> bool" where
  "ios_bad st = badbit st"

text \<open>
  A sample reader, used for concrete evaluations only: an optional sign, then
  digits with an optional fraction; the extraction fails when there is no digit,
  and what follows the digits is not looked at. It is not the library's
  extraction: it knows no exponent, no range of \<open>double\<close> and no leading white
  space. The examples use tokens on which the two agree, and every general
  theorem is for an arbitrary reader.
\<close>

definition is_digit :: "char \<Rightarrow> bool" where
  "is_digit c = (c \<in> set ''0123456789'')"

definition decimal_reader :: double_reader where
  "decimal_reader s =
     (let s1 = (case s of [] \<Rightarrow> []
                | c # r \<Rightarrow> if c = CHR ''-'' \<or> c = CHR ''+'' then r else s);
          ip = takeWhile is_digit s1;
          r = dropWhile is_digit s1;
          fp = (case r of [] \<Rightarrow> []
                | c # r' \<Rightarrow> if c = CHR ''.'' then takeWhile is_digit r' else [])
      in \<lparr>failbit = (ip = [] \<and> fp = []), badbit = False\<rparr>)"

subsection \<open>Private helpers of the parser\<close>

definition trim_leading_dashes :: "string \<Rightarrow> string" where
  "trim_leading_dashes name =
     (let pos = find_first_not_of name (CHR ''-'');
          pos = (if pos = Some 0 \<or> pos = None
                 then find_first_not_of name (CHR ''/'') else pos)
      in case pos of Some k \<Rightarrow> drop k name | None \<Rightarrow> name)"

definition is_number :: "double_reader \<Rightarrow> string \<Rightarrow> bool" where
  "is_number rd arg = (let istr = rd arg in \<not> (ios_fail istr \<or> ios_bad istr))"

definition is_option :: "double_reader \<Rightarrow> string \<Rightarrow> error + bool" where
  "is_option rd arg =
     (if \<not> (0 \<noteq> length arg) then Inl Assert_arg_not_empty
      else if is_number rd arg then Inr False
      else Inr (CHR ''-'' = arg ! 0 \<or> CHR ''/'' = arg ! 0))"

definition got_flag :: "parser \<Rightarrow> string \<Rightarrow> bool" where
  "got_flag p name = (trim_leading_dashes name \<in># flags p)"

definition is_param :: "parser \<Rightarrow> string \<Rightarrow> bool" where
  "is_param p name = (name \<in> registeredParams p)"

subsection \<open>Registration\<close>

definition add_param :: "string \<Rightarrow> parser \<Rightarrow> parser" where
  "add_param name p =
     p\<lparr>registeredParams := insert (trim_leading_dashes name) (registeredParams p)\<rparr>"

definition add_params :: "string list \<Rightarrow> parser \<Rightarrow> parser" where
  "add_params init_list p = fold add_param init_list p"

subsection \<open>The classification pass\<close>

text \<open>
  The body of the \<open>for\<close> loop of \<open>parse\<close> is \<open>parse_step\<close>. The loop index \<open>i\<close> is
  modelled by the list of tokens from position \<open>i\<close> on: \<open>arg\<close> is \<open>args_[i]\<close>,
  \<open>rest\<close> holds \<open>args_[i + 1]\<close> and the tokens after it, \<open>i == args_.size() - 1\<close> is
  \<open>rest = []\<close>. A step returns the updated parser and the tokens that remain
  after the loop's own \<open>++i\<close> (and after the extra \<open>++i\<close> of the parameter branch).
  The index is an \<open>unsigned int\<close>; the model is for argument vectors of fewer than
  \<open>2^32\<close> tokens, where it does not wrap.

  The stripped name is a suffix of the token, so the unsigned difference
  \<open>args_[i].size() - name.size()\<close> does not wrap and is the difference of the
  lengths.
\<close>

text \<open>Lines 275 to 291: the expansion of a multi-flag token; returns \<open>keep_param\<close>.\<close>

definition expand_multiflag :: "parser \<Rightarrow> string \<Rightarrow> parser \<times> string" where
  "expand_multiflag p name =
     (let (keep_param, name') =
            (if name \<noteq> [] \<and> is_param p [last name]
             then ([last name], butlast name) else ([], name))
      in (p\<lparr>flags := fold (\<lambda>c fs. add_mset [c] fs) name' (flags p)\<rparr>, keep_param))"

text \<open>Lines 298 to 328: the option takes the next token as its value, or is a flag.\<close>

definition lookahead ::
  "double_reader \<Rightarrow> mode \<Rightarrow> parser \<Rightarrow> string \<Rightarrow> string list \<Rightarrow> error + parser \<times> string list" where
  "lookahead rd mode p name rest =
     (case rest of
        [] \<Rightarrow> Inr (p\<lparr>flags := add_mset name (flags p)\<rparr>, rest)
      | nxt # rest' \<Rightarrow>
         (case is_option rd nxt of
            Inl e \<Rightarrow> Inl e
          | Inr True \<Rightarrow> Inr (p\<lparr>flags := add_mset name (flags p)\<rparr>, rest)
          | Inr False \<Rightarrow>
             if \<not> (\<not> (mode AND PREFER_FLAG_FOR_UNREG_OPTION \<noteq> 0)
                    \<or> \<not> (mode AND PREFER_PARAM_FOR_UNREG_OPTION \<noteq> 0))
             then Inl Assert_mode_exclusive
             else
               let preferParam = (mode AND PREFER_PARAM_FOR_UNREG_OPTION \<noteq> 0)
               in if is_param p name \<or> preferParam
                  then Inr (p\<lparr>params := map_insert name nxt (params p)\<rparr>, rest')
                  else Inr (p\<lparr>flags := add_mset name (flags p)\<rparr>, rest)))"

definition parse_step ::
  "double_reader \<Rightarrow> mode \<Rightarrow> parser \<Rightarrow> string \<Rightarrow> string list \<Rightarrow> error + parser \<times> string list" where
  "parse_step rd mode p arg rest =
     (case is_option rd arg of
        Inl e \<Rightarrow> Inl e
      | Inr False \<Rightarrow> Inr (p\<lparr>pos_args := pos_args p @ [arg]\<rparr>, rest)
      | Inr True \<Rightarrow>
         let name = trim_leading_dashes arg;
             equalPos = (if \<not> (mode AND NO_SPLIT_ON_EQUALSIGN \<noteq> 0)
                         then find_char name (CHR ''='') else None)
         in (case equalPos of
              Some k \<Rightarrow>
                Inr (p\<lparr>params := map_insert (take k name) (drop (k + 1) name) (params p)\<rparr>,
                     rest)
            | None \<Rightarrow>
                if 1 = length arg - length name
                   \<and> SINGLE_DASH_IS_MULTIFLAG AND mode \<noteq> 0
                   \<and> \<not> is_param p name
                then
                  (case expand_multiflag p name of
                     (p', keep_param) \<Rightarrow>
                       if keep_param \<noteq> [] then lookahead rd mode p' keep_param rest
                       else Inr (p', rest))
                else lookahead rd mode p name rest))"

function parse_loop :: "double_reader \<Rightarrow> mode \<Rightarrow> parser \<Rightarrow> string list \<Rightarrow> error + parser" where
  "parse_loop rd mode p [] = Inr p"
| "parse_loop rd mode p (arg # rest) =
     (case parse_step rd mode p arg rest of
        Inl e \<Rightarrow> Inl e
      | Inr (p', rest') \<Rightarrow> parse_loop rd mode p' rest')"
  by pat_completeness auto
termination
  by (relation "measure (\<lambda>(rd, mode, p, ts). length ts)")
     (auto simp: parse_step_def lookahead_def Let_def
      split: sum.splits bool.splits option.splits if_splits list.splits prod.splits)

text \<open>
  \<open>parse\<close> copies the argument vector into \<open>args_\<close> and runs the loop over it.
\<close>

definition parse :: "double_reader \<Rightarrow> string list \<Rightarrow> mode \<Rightarrow> parser \<Rightarrow> error + parser" where
  "parse rd argv mode p = parse_loop rd mode (p\<lparr>args := argv\<rparr>) argv"

subsection \<open>Accessors\<close>

text \<open>
  An input string stream is its content and its fail state; \<open>bad_stream\<close> is a
  default-constructed stream with \<open>failbit\<close> set.
\<close>

record istringstream =
  str :: string
  failed :: bool

definition bad_stream :: istringstream where
  "bad_stream = \<lparr>str = [], failed = True\<rparr>"

definition Tistringstream :: "string \<Rightarrow> istringstream" where
  "Tistringstream s = \<lparr>str = s, failed = False\<rparr>"

text \<open>\<open>operator[](size_t)\<close>\<close>

definition pos_at :: "parser \<Rightarrow> nat \<Rightarrow> string" where
  "pos_at p ind = (if ind < length (pos_args p) then pos_args p ! ind else empty_string)"

text \<open>\<open>operator()(size_t)\<close>\<close>

definition pos_stream :: "parser \<Rightarrow> nat \<Rightarrow> istringstream" where
  "pos_stream p ind =
     (if length (pos_args p) \<le> ind then bad_stream
      else Tistringstream (pos_args p ! ind))"

text \<open>
  The accessors with a default write the default to an output string stream
  (\<open>ostr << def_val\<close>, at precision \<open>max_digits10\<close>) and read the text back. The
  formatting of the type \<open>T\<close> is the parameter \<open>fmt\<close>.
\<close>

text \<open>\<open>operator()(size_t, T&&)\<close>\<close>

definition pos_stream_def :: "('a \<Rightarrow> string) \<Rightarrow> parser \<Rightarrow> nat \<Rightarrow> 'a \<Rightarrow> istringstream" where
  "pos_stream_def fmt p ind def_val =
     (if length (pos_args p) \<le> ind then Tistringstream (fmt def_val)
      else Tistringstream (pos_args p ! ind))"

text \<open>\<open>operator()(Tstring const&)\<close>\<close>

definition param_stream :: "parser \<Rightarrow> string \<Rightarrow> istringstream" where
  "param_stream p name =
     (case params p (trim_leading_dashes name) of
        Some v \<Rightarrow> Tistringstream v
      | None \<Rightarrow> bad_stream)"

text \<open>\<open>operator()(Tstring const&, T&&)\<close>\<close>

definition param_stream_def :: "('a \<Rightarrow> string) \<Rightarrow> parser \<Rightarrow> string \<Rightarrow> 'a \<Rightarrow> istringstream" where
  "param_stream_def fmt p name def_val =
     (case params p (trim_leading_dashes name) of
        Some v \<Rightarrow> Tistringstream v
      | None \<Rightarrow> Tistringstream (fmt def_val))"

text \<open>\<open>operator()(std::initializer_list, T&&)\<close>: the first name found wins.\<close>

fun params_stream_def :: "('a \<Rightarrow> string) \<Rightarrow> parser \<Rightarrow> string list \<Rightarrow> 'a \<Rightarrow> istringstream" where
  "params_stream_def fmt p [] def_val = Tistringstream (fmt def_val)"
| "params_stream_def fmt p (name # init_list) def_val =
     (case params p (trim_leading_dashes name) of
        Some v \<Rightarrow> Tistringstream v
      | None \<Rightarrow> params_stream_def fmt p init_list def_val)"

subsection \<open>The branch taken at a token\<close>

text \<open>
  The conditions under which the loop body takes its branches, as predicates of
  the token (and of the token after it), for counting the tokens of a pass
  without running it.

  Lines 260 to 263: splitting is not switched off and the stripped name has an
  equals sign.
\<close>

definition has_equal_split :: "mode \<Rightarrow> string \<Rightarrow> bool" where
  "has_equal_split mode arg =
     (\<not> (mode AND NO_SPLIT_ON_EQUALSIGN \<noteq> 0)
      \<and> find_char (trim_leading_dashes arg) (CHR ''='') \<noteq> None)"

text \<open>
  Lines 271 to 273, which are reached when the token was not split: the token is
  expanded as a multi-flag.
\<close>

definition has_multiflag :: "mode \<Rightarrow> parser \<Rightarrow> string \<Rightarrow> bool" where
  "has_multiflag mode p arg =
     (\<not> has_equal_split mode arg
      \<and> 1 = length arg - length (trim_leading_dashes arg)
      \<and> SINGLE_DASH_IS_MULTIFLAG AND mode \<noteq> 0
      \<and> \<not> is_param p (trim_leading_dashes arg))"

text \<open>
  Lines 277, 300 and 319: the option \<open>arg\<close> reaches the look-ahead (with its whole
  name, or with the held-back last character of a multi-flag), the next token
  \<open>nxt\<close> is not an option, and the candidate name is registered or parameters are
  preferred. Then \<open>nxt\<close> is stored as the value of \<open>arg\<close> and skipped.
\<close>

definition takes_value :: "double_reader \<Rightarrow> mode \<Rightarrow> parser \<Rightarrow> string \<Rightarrow> string \<Rightarrow> bool" where
  "takes_value rd mode p arg nxt =
     (is_option rd arg = Inr True \<and> \<not> has_equal_split mode arg
      \<and> is_option rd nxt = Inr False
      \<and> (if has_multiflag mode p arg then is_param p [last (trim_leading_dashes arg)]
          else is_param p (trim_leading_dashes arg)
               \<or> mode AND PREFER_PARAM_FOR_UNREG_OPTION \<noteq> 0))"

section \<open>Basic facts\<close>

lemma mode_bits [simp]:
  "PREFER_FLAG_FOR_UNREG_OPTION = 1" "PREFER_PARAM_FOR_UNREG_OPTION = 2"
  "NO_SPLIT_ON_EQUALSIGN = 4" "SINGLE_DASH_IS_MULTIFLAG = 8"
  by (simp_all add: PREFER_FLAG_FOR_UNREG_OPTION_def PREFER_PARAM_FOR_UNREG_OPTION_def
      NO_SPLIT_ON_EQUALSIGN_def SINGLE_DASH_IS_MULTIFLAG_def)

section \<open>Name stripping\<close>

text \<open>
  \<open>trim_leading_dashes\<close> in terms of the leading runs of the two markers: a
  leading run of dashes is dropped when something follows it; otherwise a leading
  run of slashes is dropped when something follows it; otherwise the name is
  returned as it is.
\<close>

lemma find_first_not_of_dropWhile:
  "find_first_not_of s c =
     (if dropWhile (\<lambda>x. x = c) s = [] then None
      else Some (length (takeWhile (\<lambda>x. x = c) s)))"
  by (induction s) auto

lemma drop_length_takeWhile: "drop (length (takeWhile P s)) s = dropWhile P s"
  by (induction s) auto

lemma dropWhile_same_iff: "dropWhile P s = s \<longleftrightarrow> (s = [] \<or> \<not> P (hd s))"
proof (cases s)
  case (Cons a list)
  have "length (dropWhile P list) \<le> length list" by (rule length_dropWhile_le)
  then have "dropWhile P list \<noteq> a # list" by auto
  with Cons show ?thesis by auto
qed simp

lemma takeWhile_Nil_iff: "takeWhile P s = [] \<longleftrightarrow> (s = [] \<or> \<not> P (hd s))"
  by (cases s) auto

lemma trim_leading_dashes_dropWhile:
  "trim_leading_dashes s =
     (if dropWhile (\<lambda>x. x = CHR ''-'') s \<noteq> [] \<and> s \<noteq> [] \<and> hd s = CHR ''-''
      then dropWhile (\<lambda>x. x = CHR ''-'') s
      else if dropWhile (\<lambda>x. x = CHR ''/'') s = [] then s
      else dropWhile (\<lambda>x. x = CHR ''/'') s)"
  by (auto simp: trim_leading_dashes_def find_first_not_of_dropWhile Let_def
      drop_length_takeWhile takeWhile_Nil_iff)

lemma dropWhile_replicate_append:
  "x = [] \<or> hd x \<noteq> c \<Longrightarrow> dropWhile (\<lambda>y. y = c) (replicate a c @ x) = x"
  by (induction a) (auto simp: dropWhile_same_iff)

lemma split_run:
  assumes "s \<noteq> []" "hd s = c"
  shows "\<exists>a. 0 < a \<and> s = replicate a c @ dropWhile (\<lambda>x. x = c) s"
proof -
  have "takeWhile (\<lambda>x. x = c) t = replicate (length (takeWhile (\<lambda>x. x = c) t)) c" for t
    by (induction t) auto
  then have "s = replicate (length (takeWhile (\<lambda>x. x = c) s)) c @ dropWhile (\<lambda>x. x = c) s"
    by (metis takeWhile_dropWhile_id)
  moreover have "0 < length (takeWhile (\<lambda>x. x = c) s)"
    using assms by (cases s) auto
  ultimately show ?thesis by blast
qed

lemma trim_by_runs:
  assumes "d = dropWhile (\<lambda>x. x = CHR ''-'') t" "e = dropWhile (\<lambda>x. x = CHR ''/'') t"
  shows "trim_leading_dashes t =
     (if d \<noteq> [] \<and> t \<noteq> [] \<and> hd t = CHR ''-'' then d else if e = [] then t else e)"
    and "d = t \<longleftrightarrow> t = [] \<or> hd t \<noteq> CHR ''-''"
    and "e = t \<longleftrightarrow> t = [] \<or> hd t \<noteq> CHR ''/''"
  unfolding assms
  by (rule trim_leading_dashes_dropWhile, rule dropWhile_same_iff, rule dropWhile_same_iff)

lemma trim_fixed_iff:
  "trim_leading_dashes t = t \<longleftrightarrow>
     \<not> (t \<noteq> [] \<and> hd t = CHR ''-'' \<and> dropWhile (\<lambda>x. x = CHR ''-'') t \<noteq> [])
   \<and> \<not> (t \<noteq> [] \<and> hd t = CHR ''/'' \<and> dropWhile (\<lambda>x. x = CHR ''/'') t \<noteq> [])"
proof -
  define d where "d = dropWhile (\<lambda>x. x = CHR ''-'') t"
  define e where "e = dropWhile (\<lambda>x. x = CHR ''/'') t"
  note r = trim_by_runs [OF d_def e_def]
  have "trim_leading_dashes t = t \<longleftrightarrow>
     \<not> (t \<noteq> [] \<and> hd t = CHR ''-'' \<and> d \<noteq> []) \<and> \<not> (t \<noteq> [] \<and> hd t = CHR ''/'' \<and> e \<noteq> [])"
    unfolding r(1) using r(2,3) by (cases "t = []") auto
  then show ?thesis unfolding d_def e_def .
qed

lemma trim_cases:
  obtains (same) "trim_leading_dashes s = s"
  | (dashes) "s \<noteq> []" "hd s = CHR ''-''"
      "trim_leading_dashes s = dropWhile (\<lambda>x. x = CHR ''-'') s"
      "hd (trim_leading_dashes s) \<noteq> CHR ''-''"
  | (slashes) "s \<noteq> []" "hd s = CHR ''/''"
      "trim_leading_dashes s = dropWhile (\<lambda>x. x = CHR ''/'') s"
      "hd (trim_leading_dashes s) \<noteq> CHR ''/''"
proof -
  define d where "d = dropWhile (\<lambda>x. x = CHR ''-'') s"
  define e where "e = dropWhile (\<lambda>x. x = CHR ''/'') s"
  note r = trim_by_runs [OF d_def e_def]
  have hd: "d \<noteq> [] \<Longrightarrow> hd d \<noteq> CHR ''-''" "e \<noteq> [] \<Longrightarrow> hd e \<noteq> CHR ''/''"
    unfolding d_def e_def using hd_dropWhile [of "\<lambda>x. x = CHR ''-''" s]
      hd_dropWhile [of "\<lambda>x. x = CHR ''/''" s] by blast+
  have "trim_leading_dashes s = s
   \<or> (s \<noteq> [] \<and> hd s = CHR ''-'' \<and> trim_leading_dashes s = d \<and> hd d \<noteq> CHR ''-'')
   \<or> (s \<noteq> [] \<and> hd s = CHR ''/'' \<and> trim_leading_dashes s = e \<and> hd e \<noteq> CHR ''/'')"
    unfolding r(1) using r(2,3) hd by (cases "s = []") auto
  then show thesis
    unfolding d_def e_def using same dashes slashes by metis
qed

lemma trim_two_runs:
  assumes "0 < a" "0 < b" "x \<noteq> []" "hd x \<noteq> d" 
    "c = CHR ''-'' \<and> d = CHR ''/'' \<or> c = CHR ''/'' \<and> d = CHR ''-''"
  shows "trim_leading_dashes (replicate a c @ replicate b d @ x) = replicate b d @ x"
    and "trim_leading_dashes (replicate b d @ x) = x"
proof -
  let ?t = "replicate b d @ x" and ?s = "replicate a c @ replicate b d @ x"
  have cd: "c \<noteq> d" using assms(5) by auto
  have h1: "hd ?t = d" "?t \<noteq> []"
    using assms(2) by (cases b; simp)+
  have h2: "hd ?s = c" "?s \<noteq> []"
    using assms(1) by (cases a; simp)+
  have d1: "dropWhile (\<lambda>y. y = c) ?s = ?t"
    using dropWhile_replicate_append [of ?t c a] h1 cd by simp
  have d2: "dropWhile (\<lambda>y. y = d) ?t = x"
    using dropWhile_replicate_append [of x d b] assms(4) by simp
  have d3: "dropWhile (\<lambda>y. y = c) ?t = ?t"
    using h1 cd by (simp add: dropWhile_same_iff)
  have d4: "dropWhile (\<lambda>y. y = d) ?s = ?s"
    using h2 cd by (simp add: dropWhile_same_iff)
  from assms(5) show "trim_leading_dashes ?s = ?t"
  proof
    assume "c = CHR ''-'' \<and> d = CHR ''/''"
    then show ?thesis using d1 h1 h2 by (simp only: trim_leading_dashes_dropWhile) simp
  next
    assume "c = CHR ''/'' \<and> d = CHR ''-''"
    then show ?thesis using d1 d4 h1 h2 by (simp only: trim_leading_dashes_dropWhile) simp
  qed
  from assms(5) show "trim_leading_dashes ?t = x"
  proof
    assume "c = CHR ''-'' \<and> d = CHR ''/''"
    then show ?thesis using d2 d3 h1 assms(3) by (simp only: trim_leading_dashes_dropWhile) simp
  next
    assume "c = CHR ''/'' \<and> d = CHR ''-''"
    then show ?thesis using d2 h1 assms(3) by (simp only: trim_leading_dashes_dropWhile) simp
  qed
qed

text \<open>
  Claim C8 says that name stripping is idempotent for every string. It is not: the
  function strips one kind of marker only, so a run of dashes followed by a run of
  slashes (or the reverse) loses its first run in the first application and its
  second run in the second.
\<close>

theorem trim_leading_dashes_not_idempotent:
  "trim_leading_dashes (trim_leading_dashes ''-/a'') \<noteq> trim_leading_dashes ''-/a''"
  by (simp add: trim_leading_dashes_def)

text \<open>
  Claim C8, amended: stripping the result of a stripping changes nothing exactly
  when the string is not a non-empty run of one marker (dashes or slashes),
  followed by a non-empty run of the other marker, followed by at least one more
  character. In particular it is idempotent on every string whose leading markers
  are all dashes or all slashes.
\<close>

theorem trim_leading_dashes_idempotent_iff:
  "trim_leading_dashes (trim_leading_dashes s) = trim_leading_dashes s \<longleftrightarrow>
     \<not> (\<exists>a b c d x. 0 < a \<and> 0 < b \<and> x \<noteq> [] \<and> hd x \<noteq> d
           \<and> (c = CHR ''-'' \<and> d = CHR ''/'' \<or> c = CHR ''/'' \<and> d = CHR ''-'')
           \<and> s = replicate a c @ replicate b d @ x)"
proof
  assume idem: "trim_leading_dashes (trim_leading_dashes s) = trim_leading_dashes s"
  show "\<not> (\<exists>a b c d x. 0 < a \<and> 0 < b \<and> x \<noteq> [] \<and> hd x \<noteq> d
           \<and> (c = CHR ''-'' \<and> d = CHR ''/'' \<or> c = CHR ''/'' \<and> d = CHR ''-'')
           \<and> s = replicate a c @ replicate b d @ x)"
  proof
    assume "\<exists>a b c d x. 0 < a \<and> 0 < b \<and> x \<noteq> [] \<and> hd x \<noteq> d
           \<and> (c = CHR ''-'' \<and> d = CHR ''/'' \<or> c = CHR ''/'' \<and> d = CHR ''-'')
           \<and> s = replicate a c @ replicate b d @ x"
    then obtain a b c d x where h: "0 < a" "0 < b" "x \<noteq> []" "hd x \<noteq> d"
        "c = CHR ''-'' \<and> d = CHR ''/'' \<or> c = CHR ''/'' \<and> d = CHR ''-''"
      and s: "s = replicate a c @ replicate b d @ x"
      by blast
    from trim_two_runs [OF h] idem s have "x = replicate b d @ x" by simp
    then have "length x = b + length x" by (metis length_append length_replicate)
    with h(2) show False by simp
  qed
next
  assume none: "\<not> (\<exists>a b c d x. 0 < a \<and> 0 < b \<and> x \<noteq> [] \<and> hd x \<noteq> d
           \<and> (c = CHR ''-'' \<and> d = CHR ''/'' \<or> c = CHR ''/'' \<and> d = CHR ''-'')
           \<and> s = replicate a c @ replicate b d @ x)"
  have two: False
    if s: "s \<noteq> []" "hd s = c" and t: "t = dropWhile (\<lambda>y. y = c) s" "t \<noteq> []" "hd t = d"
      and x: "dropWhile (\<lambda>y. y = d) t \<noteq> []"
      and cd: "c = CHR ''-'' \<and> d = CHR ''/'' \<or> c = CHR ''/'' \<and> d = CHR ''-''"
    for c d t
  proof -
    obtain a where a: "0 < a" "s = replicate a c @ t"
      using split_run [OF s] t(1) by blast
    obtain b where b: "0 < b" "t = replicate b d @ dropWhile (\<lambda>y. y = d) t"
      using split_run [OF t(2,3)] by blast
    have "hd (dropWhile (\<lambda>y. y = d) t) \<noteq> d"
      using hd_dropWhile [OF x] by simp
    with a b x cd none show False by metis
  qed
  show "trim_leading_dashes (trim_leading_dashes s) = trim_leading_dashes s"
  proof (rule ccontr)
    assume ne: "trim_leading_dashes (trim_leading_dashes s) \<noteq> trim_leading_dashes s"
    let ?t = "trim_leading_dashes s"
    have ts: "?t \<noteq> s" using ne by auto
    from ne trim_fixed_iff [of ?t]
    consider "?t \<noteq> []" "hd ?t = CHR ''-''" "dropWhile (\<lambda>x. x = CHR ''-'') ?t \<noteq> []"
      | "?t \<noteq> []" "hd ?t = CHR ''/''" "dropWhile (\<lambda>x. x = CHR ''/'') ?t \<noteq> []"
      by blast
    then show False
    proof cases
      case 1
      from ts 1(2) have "s \<noteq> [] \<and> hd s = CHR ''/'' \<and> ?t = dropWhile (\<lambda>x. x = CHR ''/'') s"
        by (cases s rule: trim_cases) simp_all
      with two [of "CHR ''/''" ?t "CHR ''-''"] 1 show False by blast
    next
      case 2
      from ts 2(2) have "s \<noteq> [] \<and> hd s = CHR ''-'' \<and> ?t = dropWhile (\<lambda>x. x = CHR ''-'') s"
        by (cases s rule: trim_cases) simp_all
      with two [of "CHR ''-''" ?t "CHR ''/''"] 2 show False by blast
    qed
  qed
qed

theorem trim_leading_dashes_idempotent_iff_witness:
  "trim_leading_dashes (trim_leading_dashes ''--abc'') = trim_leading_dashes ''--abc''
   \<and> \<not> (\<exists>a b c d x. 0 < a \<and> 0 < b \<and> x \<noteq> [] \<and> hd x \<noteq> d
           \<and> (c = CHR ''-'' \<and> d = CHR ''/'' \<or> c = CHR ''/'' \<and> d = CHR ''-'')
           \<and> ''--abc'' = replicate a c @ replicate b d @ x)"
proof -
  have "trim_leading_dashes (trim_leading_dashes ''--abc'') = trim_leading_dashes ''--abc''"
    by (simp add: trim_leading_dashes_def)
  then show ?thesis
    using trim_leading_dashes_idempotent_iff [of "''--abc''"] by blast
qed

section \<open>Facts about the helpers\<close>

lemma fold_add_flags:
  "fold (\<lambda>c fs. add_mset [c] fs) name fs = fs + mset (map (\<lambda>c. [c]) name)"
  by (induction name arbitrary: fs) auto

lemma expand_multiflag_eq:
  "expand_multiflag p name =
     (if name \<noteq> [] \<and> is_param p [last name]
      then (p\<lparr>flags := flags p + mset (map (\<lambda>c. [c]) (butlast name))\<rparr>, [last name])
      else (p\<lparr>flags := flags p + mset (map (\<lambda>c. [c]) name)\<rparr>, []))"
  by (simp add: expand_multiflag_def fold_add_flags)

lemma trim_leading_dashes_nonempty:
  assumes "s \<noteq> []"
  shows "trim_leading_dashes s \<noteq> []"
proof -
  define d where "d = dropWhile (\<lambda>x. x = CHR ''-'') s"
  define e where "e = dropWhile (\<lambda>x. x = CHR ''/'') s"
  show ?thesis
    unfolding trim_by_runs(1) [OF d_def e_def] using assms by simp
qed

lemma find_char_None_iff: "find_char s c = None \<longleftrightarrow> c \<notin> set s"
  by (induction s) auto

lemma find_char_first: "c \<notin> set n \<Longrightarrow> find_char (n @ c # v) c = Some (length n)"
  by (induction n) auto

lemma find_char_Some:
  "find_char s c = Some k \<Longrightarrow> s = take k s @ c # drop (Suc k) s \<and> c \<notin> set (take k s)"
  by (induction s arbitrary: k) (auto split: if_splits)

lemma is_option_nonempty: "is_option rd arg = Inr b \<Longrightarrow> arg \<noteq> []"
  by (auto simp: is_option_def split: if_splits)

lemma map_insert_present: "m k = Some v \<Longrightarrow> map_insert k v' m = m"
  by (simp add: map_insert_def)

lemma map_insert_keeps: "m k = Some v \<Longrightarrow> map_insert k' v' m k = Some v"
  by (auto simp: map_insert_def split: option.splits)

lemma params_stream_def_absent:
  "\<forall>n \<in> set names. params p (trim_leading_dashes n) = None \<Longrightarrow>
     params_stream_def fmt p names d = Tistringstream (fmt d)"
  by (induction names) auto

lemma params_stream_def_found:
  "\<forall>n \<in> set pre. params p (trim_leading_dashes n) = None \<Longrightarrow>
   params p (trim_leading_dashes name) = Some v \<Longrightarrow>
     params_stream_def fmt p (pre @ name # post) d = Tistringstream v"
  by (induction pre) auto

section \<open>The loop body, branch by branch\<close>

lemma parse_step_error:
  "is_option rd arg = Inl e \<Longrightarrow> parse_step rd mode p arg rest = Inl e"
  by (simp add: parse_step_def)

lemma parse_step_positional:
  "is_option rd arg = Inr False \<Longrightarrow>
     parse_step rd mode p arg rest = Inr (p\<lparr>pos_args := pos_args p @ [arg]\<rparr>, rest)"
  by (simp add: parse_step_def)

lemma parse_step_split:
  assumes "is_option rd arg = Inr True" and "mode AND NO_SPLIT_ON_EQUALSIGN = 0"
    and "find_char (trim_leading_dashes arg) (CHR ''='') = Some k"
  shows "parse_step rd mode p arg rest =
     Inr (p\<lparr>params := map_insert (take k (trim_leading_dashes arg))
                         (drop (Suc k) (trim_leading_dashes arg)) (params p)\<rparr>, rest)"
  using assms by (simp add: parse_step_def Let_def)

lemma parse_step_nosplit:
  assumes "is_option rd arg = Inr True"
    and "mode AND NO_SPLIT_ON_EQUALSIGN \<noteq> 0 \<or> find_char (trim_leading_dashes arg) (CHR ''='') = None"
  shows "parse_step rd mode p arg rest =
     (if length arg = Suc (length (trim_leading_dashes arg))
         \<and> SINGLE_DASH_IS_MULTIFLAG AND mode \<noteq> 0
         \<and> \<not> is_param p (trim_leading_dashes arg)
      then if is_param p [last (trim_leading_dashes arg)]
           then lookahead rd mode
                  (p\<lparr>flags := flags p + mset (map (\<lambda>c. [c]) (butlast (trim_leading_dashes arg)))\<rparr>)
                  [last (trim_leading_dashes arg)] rest
           else Inr (p\<lparr>flags := flags p + mset (map (\<lambda>c. [c]) (trim_leading_dashes arg))\<rparr>, rest)
      else lookahead rd mode p (trim_leading_dashes arg) rest)"
proof -
  have ne: "trim_leading_dashes arg \<noteq> []"
    using assms(1) is_option_nonempty trim_leading_dashes_nonempty by blast
  have eq: "(if \<not> (mode AND NO_SPLIT_ON_EQUALSIGN \<noteq> 0)
             then find_char (trim_leading_dashes arg) (CHR ''='') else None) = None"
    using assms(2) by auto
  have le: "(1 = length arg - length (trim_leading_dashes arg))
      = (length arg = Suc (length (trim_leading_dashes arg)))"
    by auto
  have "parse_step rd mode p arg rest =
     (if 1 = length arg - length (trim_leading_dashes arg)
         \<and> SINGLE_DASH_IS_MULTIFLAG AND mode \<noteq> 0
         \<and> \<not> is_param p (trim_leading_dashes arg)
      then (case expand_multiflag p (trim_leading_dashes arg) of
              (p', keep_param) \<Rightarrow>
                if keep_param \<noteq> [] then lookahead rd mode p' keep_param rest
                else Inr (p', rest))
      else lookahead rd mode p (trim_leading_dashes arg) rest)"
    by (simp only: parse_step_def Let_def assms(1) eq sum.case bool.case option.case)
  then show ?thesis
    unfolding le using ne by (simp add: expand_multiflag_eq)
qed

lemma lookahead_last:
  "lookahead rd mode p name [] = Inr (p\<lparr>flags := add_mset name (flags p)\<rparr>, [])"
  by (simp add: lookahead_def)

lemma lookahead_error:
  "is_option rd nxt = Inl e \<Longrightarrow> lookahead rd mode p name (nxt # rest) = Inl e"
  by (simp add: lookahead_def)

lemma lookahead_option:
  "is_option rd nxt = Inr True \<Longrightarrow>
     lookahead rd mode p name (nxt # rest) = Inr (p\<lparr>flags := add_mset name (flags p)\<rparr>, nxt # rest)"
  by (simp add: lookahead_def)

lemma lookahead_conflict:
  assumes "is_option rd nxt = Inr False"
    and "mode AND PREFER_FLAG_FOR_UNREG_OPTION \<noteq> 0"
    and "mode AND PREFER_PARAM_FOR_UNREG_OPTION \<noteq> 0"
  shows "lookahead rd mode p name (nxt # rest) = Inl Assert_mode_exclusive"
  using assms by (simp add: lookahead_def)

lemma lookahead_value:
  assumes "is_option rd nxt = Inr False"
    and "mode AND PREFER_FLAG_FOR_UNREG_OPTION = 0 \<or> mode AND PREFER_PARAM_FOR_UNREG_OPTION = 0"
  shows "lookahead rd mode p name (nxt # rest) =
     (if is_param p name \<or> mode AND PREFER_PARAM_FOR_UNREG_OPTION \<noteq> 0
      then Inr (p\<lparr>params := map_insert name nxt (params p)\<rparr>, rest)
      else Inr (p\<lparr>flags := add_mset name (flags p)\<rparr>, nxt # rest))"
  using assms by (auto simp: lookahead_def)

lemma lookahead_cases:
  assumes "lookahead rd mode q name rest = Inr (p', rest')"
  obtains (flag) "p' = q\<lparr>flags := add_mset name (flags q)\<rparr>" "rest' = rest"
  | (param) nxt where "rest = nxt # rest'" "is_option rd nxt = Inr False"
      "is_param q name \<or> mode AND PREFER_PARAM_FOR_UNREG_OPTION \<noteq> 0"
      "mode AND PREFER_FLAG_FOR_UNREG_OPTION = 0 \<or> mode AND PREFER_PARAM_FOR_UNREG_OPTION = 0"
      "p' = q\<lparr>params := map_insert name nxt (params q)\<rparr>"
proof (cases rest)
  case Nil
  with assms flag show thesis by (simp add: lookahead_last)
next
  case (Cons nxt rest1)
  show thesis
  proof (cases "is_option rd nxt")
    case (Inl e)
    with assms Cons show thesis by (simp add: lookahead_error)
  next
    case (Inr b)
    show thesis
    proof (cases b)
      case True
      with assms Cons Inr flag show thesis by (simp add: lookahead_option)
    next
      case False
      show thesis
      proof (cases "mode AND PREFER_FLAG_FOR_UNREG_OPTION = 0
                    \<or> mode AND PREFER_PARAM_FOR_UNREG_OPTION = 0")
        case no_conflict: True
        from Inr False have nv: "is_option rd nxt = Inr False" by simp
        show thesis
          using assms flag param [of nxt] nv no_conflict
          unfolding Cons lookahead_value [OF nv no_conflict]
          by (auto split: if_splits)
      next
        case conflict: False
        from Inr False have nv: "is_option rd nxt = Inr False" by simp
        from conflict assms show thesis
          unfolding Cons by (simp add: lookahead_conflict [OF nv])
      qed
    qed
  qed
qed

lemma parse_step_cases:
  assumes "parse_step rd mode p arg rest = Inr (p', rest')"
  obtains (pos) "is_option rd arg = Inr False" "p' = p\<lparr>pos_args := pos_args p @ [arg]\<rparr>"
      "rest' = rest"
  | (split) n v where "is_option rd arg = Inr True" "mode AND NO_SPLIT_ON_EQUALSIGN = 0"
      "trim_leading_dashes arg = n @ CHR ''='' # v" "CHR ''='' \<notin> set n"
      "p' = p\<lparr>params := map_insert n v (params p)\<rparr>" "rest' = rest"
  | (multi) "is_option rd arg = Inr True" "SINGLE_DASH_IS_MULTIFLAG AND mode \<noteq> 0"
      "p' = p\<lparr>flags := flags p + mset (map (\<lambda>c. [c]) (trim_leading_dashes arg))\<rparr>"
      "rest' = rest"
  | (flag) fs name where "is_option rd arg = Inr True"
      "SINGLE_DASH_IS_MULTIFLAG AND mode = 0 \<longrightarrow> fs = {#}"
      "p' = p\<lparr>flags := add_mset name (flags p + fs)\<rparr>" "rest' = rest"
  | (param) fs name nxt where "is_option rd arg = Inr True"
      "SINGLE_DASH_IS_MULTIFLAG AND mode = 0 \<longrightarrow> fs = {#}"
      "rest = nxt # rest'" "is_option rd nxt = Inr False"
      "is_param p name \<or> mode AND PREFER_PARAM_FOR_UNREG_OPTION \<noteq> 0"
      "mode AND PREFER_FLAG_FOR_UNREG_OPTION = 0 \<or> mode AND PREFER_PARAM_FOR_UNREG_OPTION = 0"
      "p' = p\<lparr>flags := flags p + fs, params := map_insert name nxt (params p)\<rparr>"
proof -
  note outer_flag = flag and outer_param = param
  show thesis
  proof (cases "is_option rd arg")
  case (Inl e)
  with assms show thesis by (simp add: parse_step_error)
next
  case (Inr b)
  show thesis
  proof (cases b)
    case False
    with Inr assms pos show thesis by (simp add: parse_step_positional)
  next
    case True
    with Inr have opt: "is_option rd arg = Inr True" by simp
    let ?name = "trim_leading_dashes arg"
    show thesis
    proof (cases "mode AND NO_SPLIT_ON_EQUALSIGN \<noteq> 0 \<or> find_char ?name (CHR ''='') = None")
      case False
      then obtain k where k: "mode AND NO_SPLIT_ON_EQUALSIGN = 0"
          "find_char ?name (CHR ''='') = Some k"
        by auto
      note fc = find_char_Some [OF k(2)]
      from assms have "p' = p\<lparr>params := map_insert (take k ?name) (drop (Suc k) ?name) (params p)\<rparr>"
          "rest' = rest"
        unfolding parse_step_split [OF opt k] by simp_all
      with split [of "take k ?name" "drop (Suc k) ?name"] opt k(1) fc show thesis
        by blast
    next
      case True
      note eq = parse_step_nosplit [OF opt True, of p rest]
      show thesis
      proof (cases "length arg = Suc (length ?name) \<and> SINGLE_DASH_IS_MULTIFLAG AND mode \<noteq> 0
         \<and> \<not> is_param p ?name")
        case mf: True
        show thesis
        proof (cases "is_param p [last ?name]")
          case False
          with assms eq mf multi opt show thesis by simp
        next
          case keep: True
          let ?q = "p\<lparr>flags := flags p + mset (map (\<lambda>c. [c]) (butlast ?name))\<rparr>"
          from assms eq mf keep
          have la: "lookahead rd mode ?q [last ?name] rest = Inr (p', rest')"
            by simp
          from la show thesis
          proof (cases rule: lookahead_cases)
            case flag
            with outer_flag [of "mset (map (\<lambda>c. [c]) (butlast ?name))" "[last ?name]"] opt mf
            show ?thesis by simp
          next
            case (param nxt)
            with keep outer_param [of "mset (map (\<lambda>c. [c]) (butlast ?name))" nxt "[last ?name]"] opt mf
            show ?thesis by (simp add: is_param_def)
          qed
        qed
      next
        case nomf: False
        with assms eq have la: "lookahead rd mode p ?name rest = Inr (p', rest')"
          by auto
        from la show thesis
        proof (cases rule: lookahead_cases)
          case flag
          with outer_flag [of "{#}" ?name] opt show ?thesis by simp
        next
          case (param nxt)
          with outer_param [of "{#}" nxt ?name] opt show ?thesis by simp
        qed
      qed
    qed
  qed
qed
qed

lemma parse_step_keeps_params:
  assumes "parse_step rd mode p arg rest = Inr (p', rest')" and "params p k = Some v"
  shows "params p' k = Some v"
  using assms(1)
  by (cases rule: parse_step_cases) (simp_all add: assms(2) map_insert_keeps)

lemma parse_loop_keeps_params:
  "parse_loop rd mode p ts = Inr p' \<Longrightarrow> params p k = Some v \<Longrightarrow> params p' k = Some v"
proof (induction rd mode p ts rule: parse_loop.induct)
  case (1 rd mode p)
  then show ?case by simp
next
  case (2 rd mode p arg rest)
  from "2.prems"(1) obtain q rest' where
    step: "parse_step rd mode p arg rest = Inr (q, rest')"
    and loop: "parse_loop rd mode q rest' = Inr p'"
    by (auto split: sum.splits)
  from parse_step_keeps_params [OF step "2.prems"(2)] have "params q k = Some v" .
  with "2.IH" [OF step refl loop] show ?case .
qed

section \<open>Concrete evaluations\<close>

text \<open>
  The values of the helpers on the tokens of the examples, under the sample
  reader, and the definitions that evaluate one step of the loop.
\<close>

lemmas reader_defs = is_option_def is_number_def decimal_reader_def ios_fail_def ios_bad_def
  is_digit_def

lemma is_option_eval:
  "is_option decimal_reader ''5'' = Inr False"
  "is_option decimal_reader ''-3.5'' = Inr False"
  "is_option decimal_reader ''--x'' = Inr True"
  "is_option decimal_reader ''-abc'' = Inr True"
  "is_option decimal_reader ''--name=value'' = Inr True"
  "is_option decimal_reader ''a'' = Inr False"
  by (simp_all add: reader_defs)

lemma is_option_eval2:
  "is_option decimal_reader ''1'' = Inr False"
  "is_option decimal_reader ''2'' = Inr False"
  by (simp_all add: reader_defs)

lemma trim_eval:
  "trim_leading_dashes ''--x'' = ''x''"
  "trim_leading_dashes ''x'' = ''x''"
  "trim_leading_dashes ''-abc'' = ''abc''"
  "trim_leading_dashes ''--name=value'' = ''name=value''"
  by (simp_all add: trim_leading_dashes_def)

lemmas step_eval = parse_step_def lookahead_def Let_def expand_multiflag_def is_param_def
  add_param_def new_parser_def map_insert_def

section \<open>The classification of one token\<close>

text \<open>
  Claim C5: a token that parses as a number is never an option, whatever its first
  character: \<open>is_option\<close> asks \<open>is_number\<close> first. When the loop classifies such
  a token it appends it to the positional arguments and touches nothing else. The
  token must be non-empty, as every token with a leading dash or slash is.
\<close>

theorem number_is_positional:
  assumes "arg \<noteq> []" and "is_number rd arg"
  shows "is_option rd arg = Inr False
    \<and> parse_step rd mode p arg rest = Inr (p\<lparr>pos_args := pos_args p @ [arg]\<rparr>, rest)
    \<and> parse_loop rd mode p [arg] = Inr (p\<lparr>pos_args := pos_args p @ [arg]\<rparr>)"
proof -
  have "is_option rd arg = Inr False"
    using assms by (simp add: is_option_def)
  then show ?thesis
    by (simp add: parse_step_positional)
qed

theorem number_is_positional_witness:
  "is_number decimal_reader ''-3.5''
   \<and> is_option decimal_reader ''-3.5'' = Inr False
   \<and> parse_loop decimal_reader 1 new_parser [''-3.5''] = Inr (new_parser\<lparr>pos_args := [''-3.5'']\<rparr>)"
proof -
  have n: "is_number decimal_reader ''-3.5''"
    by (simp add: reader_defs)
  show ?thesis
    using n number_is_positional [where arg = "''-3.5''" and rd = decimal_reader
        and mode = 1 and p = new_parser and rest = "[]"]
    by (simp add: new_parser_def)
qed

text \<open>
  Claim C2: an option whose candidate name \<open>name\<close> reaches the look-ahead and is
  followed by a non-option token \<open>nxt\<close>. If the name is registered, or
  \<open>PREFER_PARAM_FOR_UNREG_OPTION\<close> is set, the pair \<open>(name, nxt)\<close> is inserted into the
  parameters and the loop goes on after \<open>nxt\<close>; otherwise the name is recorded as a
  flag and the loop goes on at \<open>nxt\<close>, which it then stores as a positional
  argument. The mode is a valid one: the two preference bits are not both set.
  The second conjunct is the same statement for the loop, at an option token that
  is neither split at an equals sign nor expanded as a multi-flag.
\<close>

theorem lookahead_with_value:
  assumes "is_option rd nxt = Inr False"
    and "mode AND PREFER_FLAG_FOR_UNREG_OPTION = 0 \<or> mode AND PREFER_PARAM_FOR_UNREG_OPTION = 0"
  shows "lookahead rd mode p name (nxt # rest) =
     (if is_param p name \<or> mode AND PREFER_PARAM_FOR_UNREG_OPTION \<noteq> 0
      then Inr (p\<lparr>params := map_insert name nxt (params p)\<rparr>, rest)
      else Inr (p\<lparr>flags := add_mset name (flags p)\<rparr>, nxt # rest))
   \<and> (is_option rd arg = Inr True \<and> name = trim_leading_dashes arg
        \<and> (mode AND NO_SPLIT_ON_EQUALSIGN \<noteq> 0 \<or> CHR ''='' \<notin> set name)
        \<and> (SINGLE_DASH_IS_MULTIFLAG AND mode = 0 \<or> length arg \<noteq> Suc (length name)
            \<or> is_param p name) \<longrightarrow>
      parse_loop rd mode p (arg # nxt # rest) =
       (if is_param p name \<or> mode AND PREFER_PARAM_FOR_UNREG_OPTION \<noteq> 0
        then parse_loop rd mode (p\<lparr>params := map_insert name nxt (params p)\<rparr>) rest
        else parse_loop rd mode
               (p\<lparr>flags := add_mset name (flags p), pos_args := pos_args p @ [nxt]\<rparr>) rest))"
proof (intro conjI impI)
  show la: "lookahead rd mode p name (nxt # rest) =
     (if is_param p name \<or> mode AND PREFER_PARAM_FOR_UNREG_OPTION \<noteq> 0
      then Inr (p\<lparr>params := map_insert name nxt (params p)\<rparr>, rest)
      else Inr (p\<lparr>flags := add_mset name (flags p)\<rparr>, nxt # rest))"
    by (rule lookahead_value [OF assms])
  assume h: "is_option rd arg = Inr True \<and> name = trim_leading_dashes arg
        \<and> (mode AND NO_SPLIT_ON_EQUALSIGN \<noteq> 0 \<or> CHR ''='' \<notin> set name)
        \<and> (SINGLE_DASH_IS_MULTIFLAG AND mode = 0 \<or> length arg \<noteq> Suc (length name)
            \<or> is_param p name)"
  then have opt: "is_option rd arg = Inr True" by simp
  from h have "mode AND NO_SPLIT_ON_EQUALSIGN \<noteq> 0
      \<or> find_char (trim_leading_dashes arg) (CHR ''='') = None"
    by (auto simp only: find_char_None_iff)
  from parse_step_nosplit [OF opt this, of p "nxt # rest"] h
  have step: "parse_step rd mode p arg (nxt # rest) = lookahead rd mode p name (nxt # rest)"
    by auto
  have nstep: "parse_step rd mode q nxt rest = Inr (q\<lparr>pos_args := pos_args q @ [nxt]\<rparr>, rest)"
    for q
    by (rule parse_step_positional [OF assms(1)])
  show "parse_loop rd mode p (arg # nxt # rest) =
       (if is_param p name \<or> mode AND PREFER_PARAM_FOR_UNREG_OPTION \<noteq> 0
        then parse_loop rd mode (p\<lparr>params := map_insert name nxt (params p)\<rparr>) rest
        else parse_loop rd mode
               (p\<lparr>flags := add_mset name (flags p), pos_args := pos_args p @ [nxt]\<rparr>) rest)"
    by (simp add: step la nstep)
qed

theorem lookahead_with_value_witness:
  "parse_loop decimal_reader 1 (add_param ''x'' new_parser) [''--x'', ''5'']
     = Inr (add_param ''x'' new_parser\<lparr>params := [''x'' \<mapsto> ''5'']\<rparr>)
   \<and> parse_loop decimal_reader 1 new_parser [''--x'', ''5'']
     = Inr (new_parser\<lparr>flags := {#''x''#}, pos_args := [''5'']\<rparr>)
   \<and> parse_loop decimal_reader 2 new_parser [''--x'', ''5'']
     = Inr (new_parser\<lparr>params := [''x'' \<mapsto> ''5'']\<rparr>)"
proof -
  note v = is_option_eval(1)
  have h: "is_option decimal_reader ''--x'' = Inr True \<and> ''x'' = trim_leading_dashes ''--x''
        \<and> (mode AND NO_SPLIT_ON_EQUALSIGN \<noteq> 0 \<or> CHR ''='' \<notin> set ''x'')
        \<and> (SINGLE_DASH_IS_MULTIFLAG AND mode = 0 \<or> length ''--x'' \<noteq> Suc (length ''x'')
            \<or> is_param p ''x'')" for mode p
    by (simp add: is_option_eval trim_eval)
  have m1: "(1::mode) AND PREFER_FLAG_FOR_UNREG_OPTION = 0
      \<or> (1::mode) AND PREFER_PARAM_FOR_UNREG_OPTION = 0"
    by simp
  have m2: "(2::mode) AND PREFER_FLAG_FOR_UNREG_OPTION = 0
      \<or> (2::mode) AND PREFER_PARAM_FOR_UNREG_OPTION = 0"
    by simp
  note a = lookahead_with_value [OF v m1, where p = "add_param ''x'' new_parser"
        and name = "''x''" and arg = "''--x''" and rest = "[]", THEN conjunct2, THEN mp, OF h]
  note b = lookahead_with_value [OF v m1, where p = new_parser
        and name = "''x''" and arg = "''--x''" and rest = "[]", THEN conjunct2, THEN mp, OF h]
  note c = lookahead_with_value [OF v m2, where p = new_parser
        and name = "''x''" and arg = "''--x''" and rest = "[]", THEN conjunct2, THEN mp, OF h]
  show ?thesis
    unfolding a b c
    by (simp add: is_param_def add_param_def new_parser_def map_insert_def trim_leading_dashes_def)
qed

text \<open>
  Claim C3: with \<open>SINGLE_DASH_IS_MULTIFLAG\<close> set, an option token that is exactly one
  character longer than its candidate name (one leading dash), whose name is not
  registered and that was not split at an equals sign: if the last character of
  the name is a registered parameter, the characters before it become flags and
  the last character goes into the look-ahead as the new candidate name; otherwise
  every character becomes a flag and the step ends without look-ahead.
\<close>

theorem multiflag_expansion:
  assumes "is_option rd arg = Inr True" and "name = trim_leading_dashes arg"
    and "mode AND NO_SPLIT_ON_EQUALSIGN \<noteq> 0 \<or> CHR ''='' \<notin> set name"
    and "length arg = Suc (length name)"
    and "SINGLE_DASH_IS_MULTIFLAG AND mode \<noteq> 0"
    and "\<not> is_param p name"
  shows "parse_step rd mode p arg rest =
     (if is_param p [last name]
      then lookahead rd mode
             (p\<lparr>flags := flags p + mset (map (\<lambda>c. [c]) (butlast name))\<rparr>) [last name] rest
      else Inr (p\<lparr>flags := flags p + mset (map (\<lambda>c. [c]) name)\<rparr>, rest))"
proof -
  have "mode AND NO_SPLIT_ON_EQUALSIGN \<noteq> 0
      \<or> find_char (trim_leading_dashes arg) (CHR ''='') = None"
    using assms(2,3) by (auto simp only: find_char_None_iff)
  from parse_step_nosplit [OF assms(1) this, of p rest] assms(2,4,5,6)
  show ?thesis by simp
qed

theorem multiflag_expansion_witness:
  "parse_step decimal_reader 9 (add_param ''c'' new_parser) ''-abc'' [''5'']
     = Inr (add_param ''c'' new_parser\<lparr>flags := {#''a'', ''b''#}, params := [''c'' \<mapsto> ''5'']\<rparr>, [])
   \<and> parse_step decimal_reader 9 new_parser ''-abc'' [''5'']
     = Inr (new_parser\<lparr>flags := {#''a'', ''b'', ''c''#}\<rparr>, [''5''])"
proof -
  have h: "''abc'' = trim_leading_dashes ''-abc''"
    "(9::mode) AND NO_SPLIT_ON_EQUALSIGN \<noteq> 0 \<or> CHR ''='' \<notin> set ''abc''"
    "length ''-abc'' = Suc (length ''abc'')"
    "SINGLE_DASH_IS_MULTIFLAG AND (9::mode) \<noteq> 0"
    by (simp_all add: trim_eval)
  have u: "\<not> is_param (add_param ''c'' new_parser) ''abc''" "\<not> is_param new_parser ''abc''"
    by (simp_all add: is_param_def add_param_def new_parser_def trim_leading_dashes_def)
  note a = multiflag_expansion [OF is_option_eval(4) h u(1), where rest = "[''5'']"]
  note b = multiflag_expansion [OF is_option_eval(4) h u(2), where rest = "[''5'']"]
  show ?thesis
    unfolding a b
    by (simp add: lookahead_def is_option_eval is_param_def add_param_def new_parser_def
        map_insert_def trim_leading_dashes_def)
qed

text \<open>
  Claim C4: the first occurrence of a parameter name wins. Inserting a name that is
  not yet present stores its value; inserting a name that is already present
  leaves the mapping as it is, and a value once stored under a name is still
  stored under it after any step of the loop and after the whole pass.
\<close>

theorem first_parameter_wins:
  "(params p k = None \<longrightarrow> map_insert k v (params p) k = Some v)
   \<and> (params p k = Some v \<longrightarrow>
        map_insert k v' (params p) = params p
        \<and> (\<forall>p' rest'. parse_step rd mode p arg rest = Inr (p', rest') \<longrightarrow> params p' k = Some v)
        \<and> (\<forall>p'. parse_loop rd mode p ts = Inr p' \<longrightarrow> params p' k = Some v))"
proof (intro conjI allI impI)
  show "map_insert k v (params p) k = Some v" if "params p k = None"
    using that by (simp add: map_insert_def)
  show "map_insert k v' (params p) = params p" if "params p k = Some v"
    using that by (simp add: map_insert_def)
  show "params p' k = Some v"
    if "params p k = Some v" "parse_step rd mode p arg rest = Inr (p', rest')" for p' rest'
    by (rule parse_step_keeps_params [OF that(2,1)])
  show "params p' k = Some v"
    if "params p k = Some v" "parse_loop rd mode p ts = Inr p'" for p'
    by (rule parse_loop_keeps_params [OF that(2,1)])
qed

theorem first_parameter_wins_witness:
  "parse_loop decimal_reader 1 (add_param ''x'' new_parser) [''--x'', ''1'']
     = Inr (add_param ''x'' new_parser\<lparr>params := [''x'' \<mapsto> ''1'']\<rparr>)
   \<and> map_insert ''x'' ''2'' [''x'' \<mapsto> ''1''] = [''x'' \<mapsto> ''1'']
   \<and> (\<exists>p'. parse_loop decimal_reader 1 (add_param ''x'' new_parser)
               [''--x'', ''1'', ''--x'', ''2''] = Inr p'
          \<and> params p' ''x'' = Some ''1'')"
proof -
  let ?p0 = "add_param ''x'' new_parser"
  let ?p1 = "?p0\<lparr>params := [''x'' \<mapsto> ''1'']\<rparr>"
  have first: "parse_step decimal_reader 1 ?p0 ''--x'' (''1'' # ts) = Inr (?p1, ts)" for ts
    by (simp add: step_eval is_option_eval is_option_eval2 trim_leading_dashes_def)
  have second: "parse_step decimal_reader 1 ?p1 ''--x'' [''2''] = Inr (?p1, [])"
    by (simp add: step_eval is_option_eval is_option_eval2 trim_leading_dashes_def)
  have px: "params ?p1 ''x'' = Some ''1''"
    by simp
  note w = first_parameter_wins [where v' = "''2''" and rd = decimal_reader
      and mode = 1 and ts = "[''--x'', ''2'']", THEN conjunct2, THEN mp, OF px]
  have l1: "parse_loop decimal_reader 1 ?p0 [''--x'', ''1''] = Inr ?p1"
    by (simp add: first)
  have l2: "parse_loop decimal_reader 1 ?p0 [''--x'', ''1'', ''--x'', ''2''] = Inr ?p1"
    by (simp add: first second)
  have l3: "parse_loop decimal_reader 1 ?p1 [''--x'', ''2''] = Inr ?p1"
    by (simp add: second)
  from w l3 have "params ?p1 ''x'' = Some ''1''" "map_insert ''x'' ''2'' (params ?p1) = params ?p1"
    by blast+
  with l1 l2 show ?thesis by simp
qed

text \<open>
  Claim C6: with \<open>NO_SPLIT_ON_EQUALSIGN\<close> clear, an option whose candidate name
  contains an equals sign is split at the first one, the two parts are inserted as
  a parameter and the step ends. With the bit set, the equals sign plays no role:
  the whole candidate name goes through the multi-flag expansion and the
  look-ahead like any other name.
\<close>

theorem split_on_equals:
  assumes "is_option rd arg = Inr True" and "name = trim_leading_dashes arg"
  shows "(mode AND NO_SPLIT_ON_EQUALSIGN = 0 \<and> name = n @ CHR ''='' # v \<and> CHR ''='' \<notin> set n \<longrightarrow>
      parse_step rd mode p arg rest = Inr (p\<lparr>params := map_insert n v (params p)\<rparr>, rest))
   \<and> (mode AND NO_SPLIT_ON_EQUALSIGN \<noteq> 0 \<longrightarrow>
      parse_step rd mode p arg rest =
       (if length arg = Suc (length name) \<and> SINGLE_DASH_IS_MULTIFLAG AND mode \<noteq> 0
           \<and> \<not> is_param p name
        then if is_param p [last name]
             then lookahead rd mode
                    (p\<lparr>flags := flags p + mset (map (\<lambda>c. [c]) (butlast name))\<rparr>)
                    [last name] rest
             else Inr (p\<lparr>flags := flags p + mset (map (\<lambda>c. [c]) name)\<rparr>, rest)
        else lookahead rd mode p name rest))"
proof (intro conjI impI)
  assume h: "mode AND NO_SPLIT_ON_EQUALSIGN = 0 \<and> name = n @ CHR ''='' # v \<and> CHR ''='' \<notin> set n"
  then have fc: "find_char (trim_leading_dashes arg) (CHR ''='') = Some (length n)"
    using assms(2) find_char_first [of "CHR ''=''" n v] by simp
  have nm: "trim_leading_dashes arg = n @ CHR ''='' # v"
    using h assms(2) by simp
  from h have "mode AND NO_SPLIT_ON_EQUALSIGN = 0" by simp
  from parse_step_split [OF assms(1) this fc, of p rest]
  show "parse_step rd mode p arg rest = Inr (p\<lparr>params := map_insert n v (params p)\<rparr>, rest)"
    by (simp add: nm)
next
  assume "mode AND NO_SPLIT_ON_EQUALSIGN \<noteq> 0"
  then show "parse_step rd mode p arg rest =
       (if length arg = Suc (length name) \<and> SINGLE_DASH_IS_MULTIFLAG AND mode \<noteq> 0
           \<and> \<not> is_param p name
        then if is_param p [last name]
             then lookahead rd mode
                    (p\<lparr>flags := flags p + mset (map (\<lambda>c. [c]) (butlast name))\<rparr>)
                    [last name] rest
             else Inr (p\<lparr>flags := flags p + mset (map (\<lambda>c. [c]) name)\<rparr>, rest)
        else lookahead rd mode p name rest)"
    using parse_step_nosplit [OF assms(1), of mode p rest] assms(2) by simp
qed

theorem split_on_equals_witness:
  "parse_step decimal_reader 1 new_parser ''--name=value'' []
     = Inr (new_parser\<lparr>params := [''name'' \<mapsto> ''value'']\<rparr>, [])
   \<and> parse_step decimal_reader 5 new_parser ''--name=value'' []
     = Inr (new_parser\<lparr>flags := {#''name=value''#}\<rparr>, [])"
proof -
  have t: "''name=value'' = trim_leading_dashes ''--name=value''"
    by (simp add: trim_eval)
  have h1: "(1::mode) AND NO_SPLIT_ON_EQUALSIGN = 0 \<and> ''name=value'' = ''name'' @ CHR ''='' # ''value''
      \<and> CHR ''='' \<notin> set ''name''"
    by simp
  have h2: "(5::mode) AND NO_SPLIT_ON_EQUALSIGN \<noteq> 0"
    by simp
  note a = split_on_equals [OF is_option_eval(5) t, where mode = 1 and n = "''name''"
      and v = "''value''" and p = new_parser and rest = "[]", THEN conjunct1, THEN mp, OF h1]
  note b = split_on_equals [OF is_option_eval(5) t, where mode = 5 and p = new_parser
      and rest = "[]", THEN conjunct2, THEN mp, OF h2]
  show ?thesis
    unfolding a b
    by (simp add: lookahead_def is_param_def new_parser_def map_insert_def)
qed

section \<open>Accessors\<close>

text \<open>
  Claim C9: the accessors with a default. When the index is out of range, or the
  stripped name (or every stripped name of the list) is not a key of the
  parameters, the returned stream holds the formatted default and is not failed;
  when the index is in range or a name is found, it holds the stored string, and
  the default is ignored. In a list of names the first one found wins.
\<close>

theorem default_accessors:
  "(length (pos_args p) \<le> ind \<longrightarrow>
      pos_stream_def fmt p ind d = \<lparr>str = fmt d, failed = False\<rparr>)
   \<and> (ind < length (pos_args p) \<longrightarrow>
      pos_stream_def fmt p ind d = \<lparr>str = pos_args p ! ind, failed = False\<rparr>)
   \<and> (params p (trim_leading_dashes name) = None \<longrightarrow>
      param_stream_def fmt p name d = \<lparr>str = fmt d, failed = False\<rparr>)
   \<and> (params p (trim_leading_dashes name) = Some v \<longrightarrow>
      param_stream_def fmt p name d = \<lparr>str = v, failed = False\<rparr>)
   \<and> ((\<forall>n \<in> set names. params p (trim_leading_dashes n) = None) \<longrightarrow>
      params_stream_def fmt p names d = \<lparr>str = fmt d, failed = False\<rparr>)
   \<and> ((\<forall>n \<in> set pre. params p (trim_leading_dashes n) = None)
        \<and> params p (trim_leading_dashes name) = Some v \<longrightarrow>
      params_stream_def fmt p (pre @ name # post) d = \<lparr>str = v, failed = False\<rparr>)"
  using params_stream_def_absent [of names p fmt d]
    params_stream_def_found [of pre p name v fmt post d]
  by (simp add: pos_stream_def_def param_stream_def_def Tistringstream_def)

theorem default_accessors_witness:
  "pos_stream_def (\<lambda>b. if b then ''1'' else ''0'')
       (new_parser\<lparr>params := [''x'' \<mapsto> ''5''], pos_args := [''a'']\<rparr>) 3 True
     = \<lparr>str = ''1'', failed = False\<rparr>
   \<and> pos_stream_def (\<lambda>b. if b then ''1'' else ''0'')
       (new_parser\<lparr>params := [''x'' \<mapsto> ''5''], pos_args := [''a'']\<rparr>) 0 True
     = \<lparr>str = ''a'', failed = False\<rparr>
   \<and> param_stream_def (\<lambda>b. if b then ''1'' else ''0'')
       (new_parser\<lparr>params := [''x'' \<mapsto> ''5''], pos_args := [''a'']\<rparr>) ''--y'' True
     = \<lparr>str = ''1'', failed = False\<rparr>
   \<and> param_stream_def (\<lambda>b. if b then ''1'' else ''0'')
       (new_parser\<lparr>params := [''x'' \<mapsto> ''5''], pos_args := [''a'']\<rparr>) ''--x'' True
     = \<lparr>str = ''5'', failed = False\<rparr>
   \<and> params_stream_def (\<lambda>b. if b then ''1'' else ''0'')
       (new_parser\<lparr>params := [''x'' \<mapsto> ''5''], pos_args := [''a'']\<rparr>) [''-y'', ''--z''] True
     = \<lparr>str = ''1'', failed = False\<rparr>
   \<and> params_stream_def (\<lambda>b. if b then ''1'' else ''0'')
       (new_parser\<lparr>params := [''x'' \<mapsto> ''5''], pos_args := [''a'']\<rparr>) [''-y'', ''--x'', ''z''] True
     = \<lparr>str = ''5'', failed = False\<rparr>"
proof -
  let ?p = "new_parser\<lparr>params := [''x'' \<mapsto> ''5''], pos_args := [''a'']\<rparr>"
  let ?fmt = "\<lambda>b. if b then ''1'' else ''0''"
  have t: "trim_leading_dashes ''--y'' = ''y''" "trim_leading_dashes ''--x'' = ''x''"
    "trim_leading_dashes ''-y'' = ''y''" "trim_leading_dashes ''--z'' = ''z''"
    by (simp_all add: trim_leading_dashes_def)
  note a = default_accessors [where p = ?p and fmt = ?fmt and d = True and ind = 3
      and name = "''--y''" and names = "[''-y'', ''--z'']" and pre = "[''-y'']" and post = "[''z'']"
      and v = "''5''"]
  note b = default_accessors [where p = ?p and fmt = ?fmt and d = True and ind = 0
      and name = "''--x''" and names = "[''-y'', ''--z'']" and pre = "[''-y'']" and post = "[''z'']"
      and v = "''5''"]
  show ?thesis
    using a b by (simp add: t new_parser_def)
qed

text \<open>
  Claim C10: \<open>operator[](size_t)\<close> returns a string for every index; for an index
  that is out of range it returns the empty string, which is also what it returns
  for a parser that stores an empty positional argument at that index.
\<close>

theorem pos_at_total:
  "length (pos_args p) \<le> ind \<Longrightarrow>
     pos_at p ind = [] \<and>
     (\<forall>q. ind < length (pos_args q) \<and> pos_args q ! ind = [] \<longrightarrow> pos_at q ind = pos_at p ind)"
  by (simp add: pos_at_def empty_string_def)

theorem pos_at_total_witness:
  "pos_at (new_parser\<lparr>pos_args := [''a'']\<rparr>) 1 = []
   \<and> pos_at (new_parser\<lparr>pos_args := [''a'', []]\<rparr>) 1
       = pos_at (new_parser\<lparr>pos_args := [''a'']\<rparr>) 1"
  using pos_at_total [of "new_parser\<lparr>pos_args := [''a'']\<rparr>" 1]
  by (simp add: new_parser_def)

section \<open>The whole pass\<close>

subsection \<open>The pass when both preference bits are set\<close>

lemma is_option_total: "arg \<noteq> [] \<Longrightarrow> \<exists>b. is_option rd arg = Inr b"
  by (auto simp: is_option_def)

lemma lookahead_both_bits:
  assumes "mode AND PREFER_FLAG_FOR_UNREG_OPTION \<noteq> 0"
    and "mode AND PREFER_PARAM_FOR_UNREG_OPTION \<noteq> 0"
    and "[] \<notin> set rest"
  shows "lookahead rd mode q name rest =
     (if \<exists>nxt rest'. rest = nxt # rest' \<and> is_option rd nxt = Inr False
      then Inl Assert_mode_exclusive
      else Inr (q\<lparr>flags := add_mset name (flags q)\<rparr>, rest))"
proof (cases rest)
  case Nil
  then show ?thesis by (simp add: lookahead_last)
next
  case (Cons nxt rest')
  with assms(3) have "nxt \<noteq> []" by auto
  then obtain b where b: "is_option rd nxt = Inr b"
    using is_option_total by blast
  show ?thesis
  proof (cases b)
    case True
    with b Cons show ?thesis by (simp add: lookahead_option)
  next
    case False
    with b Cons show ?thesis by (simp add: lookahead_conflict [OF _ assms(1,2)])
  qed
qed

lemma parse_step_both_bits:
  assumes "mode AND PREFER_FLAG_FOR_UNREG_OPTION \<noteq> 0"
    and "mode AND PREFER_PARAM_FOR_UNREG_OPTION \<noteq> 0"
    and "arg \<noteq> []" and "[] \<notin> set rest"
  shows "if \<exists>nxt rest'. rest = nxt # rest'
            \<and> is_option rd arg = Inr True \<and> is_option rd nxt = Inr False
            \<and> (mode AND NO_SPLIT_ON_EQUALSIGN \<noteq> 0 \<or> CHR ''='' \<notin> set (trim_leading_dashes arg))
            \<and> (length arg = Suc (length (trim_leading_dashes arg))
                  \<and> SINGLE_DASH_IS_MULTIFLAG AND mode \<noteq> 0
                  \<and> trim_leading_dashes arg \<notin> registeredParams p
                \<longrightarrow> [last (trim_leading_dashes arg)] \<in> registeredParams p)
         then parse_step rd mode p arg rest = Inl Assert_mode_exclusive
         else \<exists>p'. parse_step rd mode p arg rest = Inr (p', rest)
                \<and> registeredParams p' = registeredParams p"
proof -
  let ?name = "trim_leading_dashes arg"
  note la = lookahead_both_bits [OF assms(1,2,4)]
  obtain b where b: "is_option rd arg = Inr b"
    using is_option_total [OF assms(3)] by blast
  show ?thesis
  proof (cases b)
    case False
    with b show ?thesis by (simp add: parse_step_positional)
  next
    case True
    with b have opt: "is_option rd arg = Inr True" by simp
    show ?thesis
    proof (cases "mode AND NO_SPLIT_ON_EQUALSIGN \<noteq> 0 \<or> find_char ?name (CHR ''='') = None")
      case False
      then obtain k where k: "mode AND NO_SPLIT_ON_EQUALSIGN = 0"
          "find_char ?name (CHR ''='') = Some k"
        by auto
      from k(2) have "CHR ''='' \<in> set ?name"
        using find_char_None_iff [of ?name "CHR ''=''"] by auto
      with k(1) show ?thesis
        by (simp add: parse_step_split [OF opt k])
    next
      case True
      then have ns: "mode AND NO_SPLIT_ON_EQUALSIGN \<noteq> 0 \<or> CHR ''='' \<notin> set ?name"
        by (simp only: find_char_None_iff)
      note eq = parse_step_nosplit [OF opt True, of p rest]
      show ?thesis
        unfolding eq la using opt ns
        by (cases rest) (auto simp: is_param_def)
    qed
  qed
qed

lemma adjacent_Cons:
  "(\<exists>pre a b post. x # xs = pre @ a # b # post \<and> P a b) \<longleftrightarrow>
     (\<exists>nxt rest'. xs = nxt # rest' \<and> P x nxt) \<or> (\<exists>pre a b post. xs = pre @ a # b # post \<and> P a b)"
proof
  assume "\<exists>pre a b post. x # xs = pre @ a # b # post \<and> P a b"
  then obtain pre a b post where h: "x # xs = pre @ a # b # post" "P a b" by blast
  show "(\<exists>nxt rest'. xs = nxt # rest' \<and> P x nxt) \<or> (\<exists>pre a b post. xs = pre @ a # b # post \<and> P a b)"
  proof (cases pre)
    case Nil
    with h show ?thesis by auto
  next
    case (Cons y pre')
    with h have "xs = pre' @ a # b # post" by simp
    with h(2) show ?thesis by blast
  qed
next
  assume "(\<exists>nxt rest'. xs = nxt # rest' \<and> P x nxt) \<or> (\<exists>pre a b post. xs = pre @ a # b # post \<and> P a b)"
  then show "\<exists>pre a b post. x # xs = pre @ a # b # post \<and> P a b"
  proof
    assume "\<exists>nxt rest'. xs = nxt # rest' \<and> P x nxt"
    then obtain nxt rest' where "x # xs = [] @ x # nxt # rest'" "P x nxt" by auto
    then show ?thesis by blast
  next
    assume "\<exists>pre a b post. xs = pre @ a # b # post \<and> P a b"
    then obtain pre a b post where "x # xs = (x # pre) @ a # b # post" "P a b" by auto
    then show ?thesis by blast
  qed
qed

lemma parse_loop_both_bits:
  fixes rd :: double_reader and mode :: mode
    and C :: "string set \<Rightarrow> string \<Rightarrow> string \<Rightarrow> bool"
  defines "C \<equiv> \<lambda>R a b. is_option rd a = Inr True \<and> is_option rd b = Inr False
            \<and> (mode AND NO_SPLIT_ON_EQUALSIGN \<noteq> 0 \<or> CHR ''='' \<notin> set (trim_leading_dashes a))
            \<and> (length a = Suc (length (trim_leading_dashes a))
                  \<and> SINGLE_DASH_IS_MULTIFLAG AND mode \<noteq> 0
                  \<and> trim_leading_dashes a \<notin> R
                \<longrightarrow> [last (trim_leading_dashes a)] \<in> R)"
  assumes both: "mode AND PREFER_FLAG_FOR_UNREG_OPTION \<noteq> 0"
    "mode AND PREFER_PARAM_FOR_UNREG_OPTION \<noteq> 0"
    and ne: "[] \<notin> set ts"
  shows "if \<exists>pre a b post. ts = pre @ a # b # post \<and> C (registeredParams p) a b
         then parse_loop rd mode p ts = Inl Assert_mode_exclusive
         else \<exists>p'. parse_loop rd mode p ts = Inr p'"
  using ne
proof (induction ts arbitrary: p)
  case Nil
  then show ?case by simp
next
  case (Cons arg rest)
  let ?R = "registeredParams p"
  let ?A = "\<exists>nxt rest'. rest = nxt # rest' \<and> C ?R arg nxt"
  let ?B = "\<exists>pre a b post. rest = pre @ a # b # post \<and> C ?R a b"
  from Cons.prems have ne: "arg \<noteq> []" "[] \<notin> set rest" by auto
  note step = parse_step_both_bits [OF both ne, of rd p]
  have split: "(\<exists>pre a b post. arg # rest = pre @ a # b # post \<and> C ?R a b) \<longleftrightarrow> ?A \<or> ?B"
    by (rule adjacent_Cons)
  show ?case
  proof (cases ?A)
    case True
    then have "parse_step rd mode p arg rest = Inl Assert_mode_exclusive"
      using step unfolding C_def by (simp only: if_True)
    moreover from True split
    have "\<exists>pre a b post. arg # rest = pre @ a # b # post \<and> C ?R a b"
      by blast
    ultimately show ?thesis by (simp add: parse_step_error)
  next
    case False
    then obtain p' where p': "parse_step rd mode p arg rest = Inr (p', rest)"
        "registeredParams p' = ?R"
      using step unfolding C_def by (simp only: if_False) blast
    from Cons.IH [OF ne(2), of p'] p'(2)
    have ih: "if ?B then parse_loop rd mode p' rest = Inl Assert_mode_exclusive
          else \<exists>q. parse_loop rd mode p' rest = Inr q"
      by simp
    have loop: "parse_loop rd mode p (arg # rest) = parse_loop rd mode p' rest"
      by (simp add: p'(1))
    show ?thesis
    proof (cases ?B)
      case True
      with ih have "parse_loop rd mode p' rest = Inl Assert_mode_exclusive"
        by (simp only: if_True)
      then have l: "parse_loop rd mode p (arg # rest) = Inl Assert_mode_exclusive"
        unfolding loop .
      from True split
      have d: "\<exists>pre a b post. arg # rest = pre @ a # b # post \<and> C ?R a b"
        by blast
      show ?thesis by (simp only: d l if_True)
    next
      case nb: False
      with ih have "\<exists>q. parse_loop rd mode p' rest = Inr q"
        by (simp only: if_False)
      then have l: "\<exists>q. parse_loop rd mode p (arg # rest) = Inr q"
        unfolding loop .
      from nb False split
      have d: "\<not> (\<exists>pre a b post. arg # rest = pre @ a # b # post \<and> C ?R a b)"
        by blast
      show ?thesis using l by (simp only: d if_False)
    qed
  qed
qed

text \<open>
  Claim C7 says that a mode with both preference bits set makes classification
  fail at once, before or at the start of the pass. The assertion is inside the
  loop, in the look-ahead branch; a token vector that never gets there is
  classified without a failure, here a positional argument and a last option.
\<close>

theorem mode_conflict_not_checked_up_front:
  "parse decimal_reader [''a'', ''--x''] 3 new_parser
     = Inr (new_parser\<lparr>args := [''a'', ''--x''], pos_args := [''a''], flags := {#''x''#}\<rparr>)"
  by (simp add: parse_def step_eval is_option_eval trim_eval)

text \<open>
  Claim C7, amended: with both preference bits set (and no empty token), the pass
  fails with the assertion exactly when some option token that reaches the
  look-ahead is directly followed by a non-option token; that is an option token
  that is not split at an equals sign and not used up by the multi-flag
  expansion. For every other token vector the pass completes. The check is made
  at that token, after the tokens before it have been stored.
\<close>

theorem mode_conflict_checked_at_lookahead:
  assumes "mode AND PREFER_FLAG_FOR_UNREG_OPTION \<noteq> 0"
    and "mode AND PREFER_PARAM_FOR_UNREG_OPTION \<noteq> 0"
    and "[] \<notin> set ts"
  shows "if \<exists>pre a b post. ts = pre @ a # b # post
            \<and> is_option rd a = Inr True \<and> is_option rd b = Inr False
            \<and> (mode AND NO_SPLIT_ON_EQUALSIGN \<noteq> 0 \<or> CHR ''='' \<notin> set (trim_leading_dashes a))
            \<and> (length a = Suc (length (trim_leading_dashes a))
                  \<and> SINGLE_DASH_IS_MULTIFLAG AND mode \<noteq> 0
                  \<and> \<not> is_param p (trim_leading_dashes a)
                \<longrightarrow> is_param p [last (trim_leading_dashes a)])
         then parse rd ts mode p = Inl Assert_mode_exclusive
         else \<exists>p'. parse rd ts mode p = Inr p'"
  using parse_loop_both_bits [OF assms, of rd "p\<lparr>args := ts\<rparr>"]
  by (simp add: parse_def is_param_def)

theorem mode_conflict_checked_at_lookahead_witness:
  "parse decimal_reader [''--x'', ''5''] 3 new_parser = Inl Assert_mode_exclusive
   \<and> (\<exists>p'. parse decimal_reader [''a''] 3 new_parser = Inr p')"
proof -
  have m: "(3::mode) AND PREFER_FLAG_FOR_UNREG_OPTION \<noteq> 0"
    "(3::mode) AND PREFER_PARAM_FOR_UNREG_OPTION \<noteq> 0"
    by simp_all
  have n: "[] \<notin> set [''--x'', ''5'']" "[] \<notin> set [''a'']"
    by simp_all
  have c: "\<exists>pre a b post. [''--x'', ''5''] = pre @ a # b # post
            \<and> is_option decimal_reader a = Inr True \<and> is_option decimal_reader b = Inr False
            \<and> ((3::mode) AND NO_SPLIT_ON_EQUALSIGN \<noteq> 0 \<or> CHR ''='' \<notin> set (trim_leading_dashes a))
            \<and> (length a = Suc (length (trim_leading_dashes a))
                  \<and> SINGLE_DASH_IS_MULTIFLAG AND (3::mode) \<noteq> 0
                  \<and> \<not> is_param new_parser (trim_leading_dashes a)
                \<longrightarrow> is_param new_parser [last (trim_leading_dashes a)])"
    by (rule exI [of _ "[]"], rule exI [of _ "''--x''"], rule exI [of _ "''5''"],
        rule exI [of _ "[]"]) (simp add: is_option_eval trim_eval)
  have d: "\<not> (\<exists>pre a b post. [''a''] = pre @ a # b # post
            \<and> is_option decimal_reader a = Inr True \<and> is_option decimal_reader b = Inr False
            \<and> ((3::mode) AND NO_SPLIT_ON_EQUALSIGN \<noteq> 0 \<or> CHR ''='' \<notin> set (trim_leading_dashes a))
            \<and> (length a = Suc (length (trim_leading_dashes a))
                  \<and> SINGLE_DASH_IS_MULTIFLAG AND (3::mode) \<noteq> 0
                  \<and> \<not> is_param new_parser (trim_leading_dashes a)
                \<longrightarrow> is_param new_parser [last (trim_leading_dashes a)]))"
    by (auto simp: Cons_eq_append_conv)
  from mode_conflict_checked_at_lookahead [OF m n(1), of decimal_reader new_parser] c
  have a: "parse decimal_reader [''--x'', ''5''] 3 new_parser = Inl Assert_mode_exclusive"
    by (simp only: if_True)
  from mode_conflict_checked_at_lookahead [OF m n(2), of decimal_reader new_parser] d
  have b: "\<exists>p'. parse decimal_reader [''a''] 3 new_parser = Inr p'"
    by (simp only: if_False)
  from a b show ?thesis by blast
qed

subsection \<open>Counting tokens\<close>

text \<open>
  What one step of the loop does, in terms of the branch predicates: which
  tokens it uses up and what it adds to the containers. The registry is never
  changed by a step, so the predicates of the fresh parser apply throughout.
\<close>

lemma dom_map_insert: "dom (map_insert k v m) = insert k (dom m)"
  by (auto simp: map_insert_def split: option.splits)

lemma takeWhile_before_char: "c \<notin> set n \<Longrightarrow> takeWhile (\<lambda>x. x \<noteq> c) (n @ c # v) = n"
  by (induction n) auto

lemma takeWhile_find_char:
  assumes "find_char s c = Some k"
  shows "takeWhile (\<lambda>x. x \<noteq> c) s = take k s"
proof -
  from find_char_Some [OF assms] have "s = take k s @ c # drop (Suc k) s" "c \<notin> set (take k s)"
    by simp_all
  then show ?thesis
    using takeWhile_before_char [of c "take k s" "drop (Suc k) s"] by simp
qed

lemma lookahead_outcome:
  assumes "[] \<notin> set rest"
    and "mode AND PREFER_FLAG_FOR_UNREG_OPTION = 0 \<or> mode AND PREFER_PARAM_FOR_UNREG_OPTION = 0"
  shows "lookahead rd mode q name rest =
     (if rest \<noteq> [] \<and> is_option rd (hd rest) = Inr False
         \<and> (is_param q name \<or> mode AND PREFER_PARAM_FOR_UNREG_OPTION \<noteq> 0)
      then Inr (q\<lparr>params := map_insert name (hd rest) (params q)\<rparr>, tl rest)
      else Inr (q\<lparr>flags := add_mset name (flags q)\<rparr>, rest))"
proof (cases rest)
  case Nil
  then show ?thesis by (simp add: lookahead_last)
next
  case (Cons nxt rest1)
  with assms(1) obtain b where b: "is_option rd nxt = Inr b"
    using is_option_total [of nxt rd] by auto
  show ?thesis
  proof (cases b)
    case True
    with b Cons show ?thesis by (simp add: lookahead_option)
  next
    case False
    with b have "is_option rd nxt = Inr False" by simp
    from lookahead_value [OF this assms(2)] this Cons show ?thesis by simp
  qed
qed

lemma parse_step_outcome:
  assumes ne: "arg \<noteq> []" "[] \<notin> set rest"
    and valid: "mode AND PREFER_FLAG_FOR_UNREG_OPTION = 0 \<or> mode AND PREFER_PARAM_FOR_UNREG_OPTION = 0"
  shows "\<exists>q. parse_step rd mode p arg rest
          = Inr (q, if rest \<noteq> [] \<and> takes_value rd mode p arg (hd rest) then tl rest else rest)
     \<and> registeredParams q = registeredParams p
     \<and> length (pos_args q) + size (flags q)
         + (if is_option rd arg = Inr True \<and> has_equal_split mode arg then 1 else 0)
         + (if rest \<noteq> [] \<and> takes_value rd mode p arg (hd rest) then 1 else 0)
       = Suc (length (pos_args p) + size (flags p)
              + (if is_option rd arg = Inr True \<and> has_multiflag mode p arg
                 then length (trim_leading_dashes arg) - 1 else 0))
     \<and> dom (params q) = dom (params p)
         \<union> (if is_option rd arg = Inr True \<and> has_equal_split mode arg
            then {takeWhile (\<lambda>c. c \<noteq> CHR ''='') (trim_leading_dashes arg)} else {})
         \<union> (if rest \<noteq> [] \<and> takes_value rd mode p arg (hd rest)
            then {if has_multiflag mode p arg then [last (trim_leading_dashes arg)]
                  else trim_leading_dashes arg}
            else {})"
proof -
  let ?name = "trim_leading_dashes arg"
  obtain b where b: "is_option rd arg = Inr b"
    using is_option_total [OF ne(1)] by blast
  show ?thesis
  proof (cases b)
    case False
    with b have o: "is_option rd arg = Inr False" by simp
    then have t: "\<not> takes_value rd mode p arg x" for x
      by (simp add: takes_value_def)
    show ?thesis
      by (simp add: parse_step_positional [OF o] o t)
  next
    case True
    with b have opt: "is_option rd arg = Inr True" by simp
    have nn: "?name \<noteq> []"
      using ne(1) by (rule trim_leading_dashes_nonempty)
    show ?thesis
    proof (cases "mode AND NO_SPLIT_ON_EQUALSIGN \<noteq> 0 \<or> find_char ?name (CHR ''='') = None")
      case False
      then obtain k where k: "mode AND NO_SPLIT_ON_EQUALSIGN = 0"
          "find_char ?name (CHR ''='') = Some k"
        by auto
      then have s: "has_equal_split mode arg"
        by (simp add: has_equal_split_def)
      then have t: "\<not> takes_value rd mode p arg x" and m: "\<not> has_multiflag mode p arg" for x
        by (simp_all add: takes_value_def has_multiflag_def)
      show ?thesis
        by (simp add: parse_step_split [OF opt k] opt s t m dom_map_insert
            takeWhile_find_char [OF k(2)])
    next
      case True
      then have s: "\<not> has_equal_split mode arg"
        by (auto simp: has_equal_split_def)
      note eq = parse_step_nosplit [OF opt True, of p rest]
      have mf: "has_multiflag mode p arg \<longleftrightarrow>
          length arg = Suc (length ?name) \<and> SINGLE_DASH_IS_MULTIFLAG AND mode \<noteq> 0
          \<and> \<not> is_param p ?name"
        using s by (auto simp: has_multiflag_def)
      show ?thesis
      proof (cases "has_multiflag mode p arg")
        case nomf: False
        have t: "takes_value rd mode p arg x \<longleftrightarrow>
            is_option rd x = Inr False
            \<and> (is_param p ?name \<or> mode AND PREFER_PARAM_FOR_UNREG_OPTION \<noteq> 0)" for x
          using opt s nomf by (simp add: takes_value_def)
        from nomf mf eq
        have step: "parse_step rd mode p arg rest = lookahead rd mode p ?name rest"
          by auto
        show ?thesis
          unfolding step lookahead_outcome [OF ne(2) valid]
          using opt s nomf by (auto simp: t dom_map_insert)
      next
        case ismf: True
        show ?thesis
        proof (cases "is_param p [last ?name]")
          case False
          have t: "\<not> takes_value rd mode p arg x" for x
            using ismf False by (simp add: takes_value_def)
          from ismf mf eq False
          have step: "parse_step rd mode p arg rest
              = Inr (p\<lparr>flags := flags p + mset (map (\<lambda>c. [c]) ?name)\<rparr>, rest)"
            by simp
          show ?thesis
            unfolding step using opt s ismf nn by (simp add: t)
        next
          case keep: True
          let ?q = "p\<lparr>flags := flags p + mset (map (\<lambda>c. [c]) (butlast ?name))\<rparr>"
          have kq: "is_param ?q [last ?name]"
            using keep by (simp add: is_param_def)
          have t: "takes_value rd mode p arg x \<longleftrightarrow> is_option rd x = Inr False" for x
            using opt s ismf keep by (simp add: takes_value_def)
          from ismf mf eq keep
          have step: "parse_step rd mode p arg rest = lookahead rd mode ?q [last ?name] rest"
            by simp
          show ?thesis
            unfolding step lookahead_outcome [OF ne(2) valid]
            using opt s ismf nn kq by (auto simp: t dom_map_insert)
        qed
      qed
    qed
  qed
qed

lemma pairs_Cons:
  "filter (\<lambda>(a, b). P a b) (zip (x # rest) (tl (x # rest))) =
     (if rest \<noteq> [] \<and> P x (hd rest) then [(x, hd rest)] else [])
     @ filter (\<lambda>(a, b). P a b) (zip rest (tl rest))"
  by (cases rest) simp_all

lemma registry_only:
  assumes "registeredParams p = registeredParams p0"
  shows "has_multiflag mode p = has_multiflag mode p0"
    and "takes_value rd mode p = takes_value rd mode p0"
  using assms by (simp_all add: fun_eq_iff has_multiflag_def takes_value_def is_param_def)

lemma takes_value_option: "takes_value rd mode p a b \<Longrightarrow> is_option rd b = Inr False"
  by (simp add: takes_value_def)

lemma takes_value_no_split: "takes_value rd mode p a b \<Longrightarrow> \<not> has_equal_split mode a"
  by (simp add: takes_value_def)

lemma not_option_takes_nothing: "is_option rd a = Inr False \<Longrightarrow> \<not> takes_value rd mode p a b"
  by (simp add: takes_value_def)

lemma parse_loop_accounting:
  fixes rd :: double_reader and mode :: mode and p0 :: parser
  defines "SP \<equiv> \<lambda>ts. filter (\<lambda>a. is_option rd a = Inr True \<and> has_equal_split mode a) ts"
    and "TP \<equiv> \<lambda>ts. filter (\<lambda>(a, b). takes_value rd mode p0 a b) (zip ts (tl ts))"
    and "mx \<equiv> \<lambda>a. if is_option rd a = Inr True \<and> has_multiflag mode p0 a
                  then length (trim_leading_dashes a) - 1 else 0"
    and "sn \<equiv> \<lambda>a. takeWhile (\<lambda>c. c \<noteq> CHR ''='') (trim_leading_dashes a)"
    and "vn \<equiv> \<lambda>(a, b :: string). if has_multiflag mode p0 a then [last (trim_leading_dashes a)]
                  else trim_leading_dashes a"
  assumes valid: "mode AND PREFER_FLAG_FOR_UNREG_OPTION = 0 \<or> mode AND PREFER_PARAM_FOR_UNREG_OPTION = 0"
  shows "[] \<notin> set ts \<Longrightarrow> registeredParams p = registeredParams p0 \<Longrightarrow>
     \<exists>p'. parse_loop rd mode p ts = Inr p'
       \<and> length (pos_args p') + size (flags p') + length (SP ts) + 2 * length (TP ts)
           = length (pos_args p) + size (flags p) + length ts + sum_list (map mx ts)
       \<and> dom (params p') = dom (params p) \<union> set (map sn (SP ts)) \<union> set (map vn (TP ts))"
proof (induction "length ts" arbitrary: ts p rule: less_induct)
  case less
  show ?case
  proof (cases ts)
    case Nil
    then show ?thesis by (simp add: SP_def TP_def)
  next
    case (Cons a rest)
    with less.prems have ne: "a \<noteq> []" "[] \<notin> set rest" by auto
    note reg = registry_only [OF less.prems(2)]
    define t where "t \<longleftrightarrow> rest \<noteq> [] \<and> takes_value rd mode p0 a (hd rest)"
    define r where "r = (if t then tl rest else rest)"
    define s :: nat where "s = (if is_option rd a = Inr True \<and> has_equal_split mode a then 1 else 0)"
    have "\<exists>q. parse_step rd mode p a rest = Inr (q, r)
      \<and> registeredParams q = registeredParams p0
      \<and> length (pos_args q) + size (flags q) + s + (if t then 1 else 0)
          = Suc (length (pos_args p) + size (flags p) + mx a)
      \<and> dom (params q) = dom (params p)
          \<union> (if is_option rd a = Inr True \<and> has_equal_split mode a then {sn a} else {})
          \<union> (if t then {vn (a, hd rest)} else {})"
      using parse_step_outcome [OF ne valid, of rd p]
      unfolding reg less.prems(2) t_def r_def s_def mx_def sn_def vn_def prod.case .
    then obtain q where oq: "parse_step rd mode p a rest = Inr (q, r)
      \<and> registeredParams q = registeredParams p0
      \<and> length (pos_args q) + size (flags q) + s + (if t then 1 else 0)
          = Suc (length (pos_args p) + size (flags p) + mx a)
      \<and> dom (params q) = dom (params p)
          \<union> (if is_option rd a = Inr True \<and> has_equal_split mode a then {sn a} else {})
          \<union> (if t then {vn (a, hd rest)} else {})" ..
    from oq have step: "parse_step rd mode p a rest = Inr (q, r)"
      and rq: "registeredParams q = registeredParams p0"
      and cq: "length (pos_args q) + size (flags q) + s + (if t then 1 else 0)
          = Suc (length (pos_args p) + size (flags p) + mx a)"
      and dq: "dom (params q) = dom (params p)
          \<union> (if is_option rd a = Inr True \<and> has_equal_split mode a then {sn a} else {})
          \<union> (if t then {vn (a, hd rest)} else {})"
      by blast+
    have "set r \<subseteq> set rest"
      by (cases rest) (auto simp: r_def)
    moreover have "length r \<le> length rest"
      by (simp add: r_def)
    ultimately have rs: "set r \<subseteq> set rest" "length r \<le> length rest"
      by blast+
    with ne(2) Cons have "[] \<notin> set r" "length r < length ts" by auto
    from less.hyps [OF this(2,1) rq]
    obtain p' where ih: "parse_loop rd mode q r = Inr p'
       \<and> length (pos_args p') + size (flags p') + length (SP r) + 2 * length (TP r)
           = length (pos_args q) + size (flags q) + length r + sum_list (map mx r)
       \<and> dom (params p') = dom (params q) \<union> set (map sn (SP r)) \<union> set (map vn (TP r))" ..
    from ih have loop: "parse_loop rd mode q r = Inr p'" ..
    from ih have cp: "length (pos_args p') + size (flags p') + length (SP r) + 2 * length (TP r)
           = length (pos_args q) + size (flags q) + length r + sum_list (map mx r)"
      by (elim conjE)
    from ih have dp: "dom (params p') = dom (params q) \<union> set (map sn (SP r)) \<union> set (map vn (TP r))"
      by (elim conjE)
    have run: "parse_loop rd mode p ts = Inr p'"
      unfolding Cons by (simp add: step loop)
    have tp: "TP ts = (if t then [(a, hd rest)] else []) @ TP rest"
      unfolding TP_def Cons t_def by (rule pairs_Cons)
    have ls: "length (SP ts) = s + length (SP rest)"
      unfolding SP_def Cons s_def by simp
    have ss: "set (map sn (SP ts))
        = (if is_option rd a = Inr True \<and> has_equal_split mode a then {sn a} else {})
          \<union> set (map sn (SP rest))"
      unfolding SP_def Cons by simp
    have lt: "length (TP ts) = (if t then 1 else 0) + length (TP rest)"
      unfolding tp by simp
    have st: "set (map vn (TP ts)) = (if t then {vn (a, hd rest)} else {}) \<union> set (map vn (TP rest))"
      unfolding tp by simp
    have lm: "sum_list (map mx ts) = mx a + sum_list (map mx rest)"
      unfolding Cons by simp
    have len: "length ts = Suc (length rest)"
      unfolding Cons by simp
    have tail: "length (SP rest) = length (SP r) \<and> length (TP rest) = length (TP r)
        \<and> sum_list (map mx rest) = sum_list (map mx r)
        \<and> set (map sn (SP rest)) = set (map sn (SP r))
        \<and> set (map vn (TP rest)) = set (map vn (TP r))
        \<and> length rest = (if t then 1 else 0) + length r \<and> (t \<longrightarrow> s = 0)"
    proof (cases t)
      case False
      then show ?thesis by (simp add: r_def)
    next
      case True
      then obtain b r' where rest: "rest = b # r'" and tk: "takes_value rd mode p0 a b"
        unfolding t_def by (cases rest) auto
      from tk have nb: "is_option rd b = Inr False"
        by (rule takes_value_option)
      from tk have ns: "s = 0"
        unfolding s_def by (auto dest: takes_value_no_split)
      from True rest have r: "r = r'" by (simp add: r_def)
      have "TP rest = (if r' \<noteq> [] \<and> takes_value rd mode p0 b (hd r') then [(b, hd r')] else [])
          @ TP r'"
        unfolding TP_def rest by (rule pairs_Cons)
      then have a1: "TP rest = TP r'"
        using not_option_takes_nothing [OF nb] by simp
      have a2: "SP rest = SP r'"
        unfolding SP_def rest using nb by simp
      have a3: "mx b = 0"
        unfolding mx_def using nb by simp
      show ?thesis
        unfolding r a1 a2 using True ns a3 by (simp add: rest)
    qed
    have count: "length (pos_args p') + size (flags p') + length (SP ts) + 2 * length (TP ts)
           = length (pos_args p) + size (flags p) + length ts + sum_list (map mx ts)"
      using cq cp tail unfolding ls lt lm len by (cases t) simp_all
    have doms: "dom (params p') = dom (params p) \<union> set (map sn (SP ts)) \<union> set (map vn (TP ts))"
      using tail unfolding dp dq ss st by auto
    from run count doms show ?thesis by blast
  qed
qed

lemma add_params_containers:
  "params (add_params names p) = params p \<and> pos_args (add_params names p) = pos_args p
   \<and> flags (add_params names p) = flags p"
  unfolding add_params_def by (induction names arbitrary: p) (simp_all add: add_param_def)

text \<open>
  Claim C1 says that positional arguments, flag occurrences and parameter entries
  add up to the number of tokens, for every token vector and mode. A parameter
  that takes the next token as its value uses two tokens for one entry.
\<close>

theorem token_count_counterexample:
  "parse decimal_reader [''--x'', ''5''] 2 new_parser
     = Inr (new_parser\<lparr>args := [''--x'', ''5''], params := [''x'' \<mapsto> ''5'']\<rparr>)
   \<and> length (pos_args (new_parser\<lparr>args := [''--x'', ''5''], params := [''x'' \<mapsto> ''5'']\<rparr>))
     + size (flags (new_parser\<lparr>args := [''--x'', ''5''], params := [''x'' \<mapsto> ''5'']\<rparr>))
     + card (dom (params (new_parser\<lparr>args := [''--x'', ''5''], params := [''x'' \<mapsto> ''5'']\<rparr>)))
     \<noteq> length [''--x'', ''5'']"
  by (simp add: parse_def step_eval is_option_eval trim_eval)

text \<open>
  Two more ways in which the sum differs: a multi-flag token gives one flag per
  character, and a repeated parameter name gives no new entry.
\<close>

lemma multiflag_sum_example:
  "parse decimal_reader [''-ab''] 9 new_parser
     = Inr (new_parser\<lparr>args := [''-ab''], flags := {#''a'', ''b''#}\<rparr>)"
  by (simp add: parse_def step_eval reader_defs trim_leading_dashes_def)

lemma duplicate_sum_example:
  "parse decimal_reader [''--x=1'', ''--x=2''] 1 new_parser
     = Inr (new_parser\<lparr>args := [''--x=1'', ''--x=2''], params := [''x'' \<mapsto> ''1'']\<rparr>)"
  by (simp add: parse_def step_eval reader_defs trim_leading_dashes_def)

text \<open>
  Claim C1, amended: on a fresh parser (with any registered names), for a token
  vector without empty tokens and a mode whose two preference bits are not both
  set, the pass completes and accounts for every token. Let \<open>splits\<close> be the option
  tokens that are split at an equals sign, \<open>pairs\<close> the option tokens that take
  the token after them as their value (with that token), and \<open>extra\<close> the number of
  characters beyond the first in the names of the expanded multi-flag tokens.
  Then positional arguments plus flag occurrences plus \<open>splits\<close> plus twice
  \<open>pairs\<close> is the number of tokens plus \<open>extra\<close>, and the parameter names are
  exactly the names before the equals signs of \<open>splits\<close> and the candidate names of
  \<open>pairs\<close>. When no such name comes twice, positional arguments plus flag
  occurrences plus parameter entries (each pair counted once) plus the tokens
  consumed as values is the number of tokens plus \<open>extra\<close>. The sum of the claim is
  the number of tokens when no token is taken as a value, no expanded multi-flag
  name has more than one character and the split names are distinct.
\<close>

theorem token_count:
  fixes rd :: double_reader and mode :: mode and names ts :: "string list"
  defines "p \<equiv> add_params names new_parser"
  defines "splits \<equiv> filter (\<lambda>a. is_option rd a = Inr True \<and> has_equal_split mode a) ts"
    and "pairs \<equiv> filter (\<lambda>(a, b). takes_value rd mode p a b) (zip ts (tl ts))"
    and "extra \<equiv> sum_list (map (\<lambda>a. if is_option rd a = Inr True \<and> has_multiflag mode p a
                               then length (trim_leading_dashes a) - 1 else 0) ts)"
  defines "split_names \<equiv> map (\<lambda>a. takeWhile (\<lambda>c. c \<noteq> CHR ''='') (trim_leading_dashes a)) splits"
    and "pair_names \<equiv> map (\<lambda>(a, b). if has_multiflag mode p a then [last (trim_leading_dashes a)]
                               else trim_leading_dashes a) pairs"
  assumes "[] \<notin> set ts"
    and "mode AND PREFER_FLAG_FOR_UNREG_OPTION = 0 \<or> mode AND PREFER_PARAM_FOR_UNREG_OPTION = 0"
  shows "\<exists>p'. parse rd ts mode p = Inr p'
    \<and> length (pos_args p') + size (flags p') + length splits + 2 * length pairs
        = length ts + extra
    \<and> dom (params p') = set split_names \<union> set pair_names
    \<and> (distinct (split_names @ pair_names) \<longrightarrow>
        length (pos_args p') + size (flags p') + card (dom (params p')) + length pairs
          = length ts + extra)
    \<and> (pairs = [] \<and> extra = 0 \<and> distinct split_names \<longrightarrow>
        length (pos_args p') + size (flags p') + card (dom (params p')) = length ts)"
proof -
  let ?p = "p\<lparr>args := ts\<rparr>"
  have init: "params ?p = Map.empty" "pos_args ?p = []" "flags ?p = {#}"
    "registeredParams ?p = registeredParams p"
    unfolding p_def using add_params_containers [of names new_parser]
    by (simp_all add: new_parser_def)
  from parse_loop_accounting [OF assms(8,7) init(4), of rd]
  obtain p' where run: "parse_loop rd mode ?p ts = Inr p'"
    and count: "length (pos_args p') + size (flags p') + length splits + 2 * length pairs
        = length ts + extra"
    and doms: "dom (params p') = set split_names \<union> set pair_names"
    unfolding splits_def pairs_def extra_def split_names_def pair_names_def init
    by auto
  have one: "length (pos_args p') + size (flags p') + card (dom (params p')) + length pairs
          = length ts + extra" if "distinct (split_names @ pair_names)"
  proof -
    have "card (dom (params p')) = length (split_names @ pair_names)"
      unfolding doms using distinct_card [OF that] by simp
    also have "\<dots> = length splits + length pairs"
      by (simp add: split_names_def pair_names_def)
    finally show ?thesis using count by simp
  qed
  have orig: "length (pos_args p') + size (flags p') + card (dom (params p')) = length ts"
    if "pairs = [] \<and> extra = 0 \<and> distinct split_names"
  proof -
    from that have "distinct (split_names @ pair_names)"
      by (simp add: pair_names_def)
    from one [OF this] that show ?thesis by simp
  qed
  from run count doms one orig show ?thesis
    unfolding parse_def by blast
qed

theorem token_count_witness:
  "parse decimal_reader [''a'', ''-xyc'', ''5'', ''--k=v'', ''--f'', ''b''] 9
       (add_params [''c''] new_parser)
     = Inr (add_params [''c''] new_parser
            \<lparr>args := [''a'', ''-xyc'', ''5'', ''--k=v'', ''--f'', ''b''],
              pos_args := [''a'', ''b''], flags := {#''x'', ''y'', ''f''#},
              params := [''c'' \<mapsto> ''5'', ''k'' \<mapsto> ''v'']\<rparr>)
   \<and> length [''a'', ''b''] + size {#''x'', ''y'', ''f''#}
       + card (dom [''c'' \<mapsto> ''5'', ''k'' \<mapsto> ''v'']) + 1
     = length [''a'', ''-xyc'', ''5'', ''--k=v'', ''--f'', ''b''] + 2
   \<and> parse decimal_reader [''a'', ''-f'', ''b'', ''--k=v''] 1 (add_params [] new_parser)
     = Inr (new_parser\<lparr>args := [''a'', ''-f'', ''b'', ''--k=v''], pos_args := [''a'', ''b''],
              flags := {#''f''#}, params := [''k'' \<mapsto> ''v'']\<rparr>)
   \<and> length [''a'', ''b''] + size {#''f''#} + card (dom [''k'' \<mapsto> ''v''])
     = length [''a'', ''-f'', ''b'', ''--k=v'']"
proof -
  let ?ts = "[''a'', ''-xyc'', ''5'', ''--k=v'', ''--f'', ''b'']"
  let ?p = "add_params [''c''] new_parser"
  let ?us = "[''a'', ''-f'', ''b'', ''--k=v'']"
  let ?q = "add_params [] new_parser"
  have o: "is_option decimal_reader ''a'' = Inr False" "is_option decimal_reader ''-xyc'' = Inr True"
    "is_option decimal_reader ''5'' = Inr False" "is_option decimal_reader ''--k=v'' = Inr True"
    "is_option decimal_reader ''--f'' = Inr True" "is_option decimal_reader ''b'' = Inr False"
    "is_option decimal_reader ''-f'' = Inr True"
    by (simp_all add: reader_defs)
  have t: "trim_leading_dashes ''-xyc'' = ''xyc''" "trim_leading_dashes ''--k=v'' = ''k=v''"
    "trim_leading_dashes ''--f'' = ''f''" "trim_leading_dashes ''c'' = ''c''"
    "trim_leading_dashes ''-f'' = ''f''"
    by (simp_all add: trim_leading_dashes_def)
  have run: "parse decimal_reader ?ts 9 ?p
     = Inr (?p\<lparr>args := ?ts, pos_args := [''a'', ''b''], flags := {#''x'', ''y'', ''f''#},
              params := [''c'' \<mapsto> ''5'', ''k'' \<mapsto> ''v'']\<rparr>)"
    by (simp add: parse_def add_params_def step_eval o t)
  have run2: "parse decimal_reader ?us 1 ?q
     = Inr (new_parser\<lparr>args := ?us, pos_args := [''a'', ''b''],
              flags := {#''f''#}, params := [''k'' \<mapsto> ''v'']\<rparr>)"
    by (simp add: parse_def add_params_def step_eval o t)
  have h: "[] \<notin> set ?ts"
    "(9::mode) AND PREFER_FLAG_FOR_UNREG_OPTION = 0 \<or> (9::mode) AND PREFER_PARAM_FOR_UNREG_OPTION = 0"
    by simp_all
  have h2: "[] \<notin> set ?us"
    "(1::mode) AND PREFER_FLAG_FOR_UNREG_OPTION = 0 \<or> (1::mode) AND PREFER_PARAM_FOR_UNREG_OPTION = 0"
    by simp_all
  have pairs: "filter (\<lambda>(a, b). takes_value decimal_reader 9 ?p a b) (zip ?ts (tl ?ts))
      = [(''-xyc'', ''5'')]"
    by (simp add: takes_value_def has_multiflag_def has_equal_split_def o t is_param_def
        add_params_def add_param_def new_parser_def)
  have splits: "filter (\<lambda>a. is_option decimal_reader a = Inr True \<and> has_equal_split 9 a) ?ts
      = [''--k=v'']"
    by (simp add: has_equal_split_def o t)
  have extra: "sum_list (map (\<lambda>a. if is_option decimal_reader a = Inr True \<and> has_multiflag 9 ?p a
                               then length (trim_leading_dashes a) - 1 else 0) ?ts) = 2"
    by (simp add: has_multiflag_def has_equal_split_def o t is_param_def
        add_params_def add_param_def new_parser_def)
  have pairs2: "filter (\<lambda>(a, b). takes_value decimal_reader 1 ?q a b) (zip ?us (tl ?us)) = []"
    by (simp add: takes_value_def has_multiflag_def has_equal_split_def o t is_param_def
        add_params_def new_parser_def)
  have splits2: "filter (\<lambda>a. is_option decimal_reader a = Inr True \<and> has_equal_split 1 a) ?us
      = [''--k=v'']"
    by (simp add: has_equal_split_def o t)
  have extra2: "sum_list (map (\<lambda>a. if is_option decimal_reader a = Inr True \<and> has_multiflag 1 ?q a
                               then length (trim_leading_dashes a) - 1 else 0) ?us) = 0"
    by (simp add: has_multiflag_def)
  from token_count [OF h, of decimal_reader "[''c'']"]
  obtain p' where "parse decimal_reader ?ts 9 ?p = Inr p'"
    "length (pos_args p') + size (flags p') + card (dom (params p')) + 1 = length ?ts + 2"
    unfolding pairs splits extra
    by (auto simp: has_multiflag_def has_equal_split_def t is_param_def
        add_params_def add_param_def new_parser_def)
  with run have a: "length [''a'', ''b''] + size {#''x'', ''y'', ''f''#}
       + card (dom [''c'' \<mapsto> ''5'', ''k'' \<mapsto> ''v'']) + 1 = length ?ts + 2"
    by (auto simp: add_params_def add_param_def new_parser_def)
  from token_count [OF h2, of decimal_reader "[]"]
  obtain q' where "parse decimal_reader ?us 1 ?q = Inr q'"
    "length (pos_args q') + size (flags q') + card (dom (params q')) = length ?us"
    unfolding pairs2 splits2 extra2 by auto
  with run2 have b: "length [''a'', ''b''] + size {#''f''#} + card (dom [''k'' \<mapsto> ''v''])
     = length ?us"
    by (auto simp: new_parser_def)
  from run a run2 b show ?thesis by blast
qed

end
